theory Spec2Isabelle
  imports Complex_Main
begin

unbundle bit_operations_syntax

section \<open>The scalar field (ScalarField.ts)\<close>

text \<open>
  The field is \<^verbatim>\<open>values: number[][]\<close>, a list of rows. Numbers are modelled as
  reals. The constructor only builds rectangular fields (every row has \<^verbatim>\<open>dimX\<close>
  entries) and no method changes a row's length; \<open>wf_grid\<close> records that.
\<close>

type_synonym grid = "real list list"

definition dimY :: "grid \<Rightarrow> int" where
  "dimY g = int (length g)"

definition dimX :: "grid \<Rightarrow> int" where
  "dimX g = (case g of [] \<Rightarrow> 0 | firstColumn # _ \<Rightarrow> int (length firstColumn))"

definition wf_grid :: "grid \<Rightarrow> bool" where
  "wf_grid g \<longleftrightarrow> (\<forall>row \<in> set g. int (length row) = dimX g)"

definition isInside :: "grid \<Rightarrow> real \<Rightarrow> real \<Rightarrow> bool" where
  "isInside g x y \<longleftrightarrow>
     x \<ge> 0 \<and> x \<le> of_int (dimX g - 1) \<and> y \<ge> 0 \<and> y \<le> of_int (dimY g - 1)"

text \<open>
  \<^verbatim>\<open>get\<close> and \<^verbatim>\<open>set\<close> index \<^verbatim>\<open>values[y][x]\<close> without a guard; they are meant for
  cells inside the field only, and every theorem below uses them there.
\<close>

definition get :: "grid \<Rightarrow> int \<Rightarrow> int \<Rightarrow> real" where
  "get g x y = g ! nat y ! nat x"

definition set_value :: "grid \<Rightarrow> int \<Rightarrow> int \<Rightarrow> real \<Rightarrow> grid" where
  "set_value g x y v = g[nat y := (g ! nat y)[nat x := v]]"

definition getDistanceSq :: "real \<Rightarrow> real \<Rightarrow> real \<Rightarrow> real \<Rightarrow> real" where
  "getDistanceSq x1 y1 x2 y2 =
     (let deltaX = x2 - x1; deltaY = y2 - y1 in deltaX * deltaX + deltaY * deltaY)"

definition getDistanceSqToSegment ::
  "real \<Rightarrow> real \<Rightarrow> real \<Rightarrow> real \<Rightarrow> real \<Rightarrow> real \<Rightarrow> real" where
  "getDistanceSqToSegment x y x1 y1 x2 y2 =
     (let length2 = getDistanceSq x1 y1 x2 y2 in
      if length2 = 0 then getDistanceSq x y x1 y1
      else
        let t = max 0 (min 1 (((x - x1) * (x2 - x1) + (y - y1) * (y2 - y1)) / length2))
        in getDistanceSq x y (x1 + t * (x2 - x1)) (y1 + t * (y2 - y1)))"

text \<open>\<^verbatim>\<open>const minDistanceSq = 1 / 1024 / 1024\<close>, the floor on squared distances.\<close>

definition minDistanceSq :: real where
  "minDistanceSq = 1 / 1024 / 1024"

type_synonym MergingOperation = "real \<Rightarrow> real \<Rightarrow> real"

subsection \<open>extrapolate\<close>

text \<open>
  The four vertices of the enclosing square are visited in the order of the two nested
  loops; the first vertex that coincides with the query point returns its value at once.
  A read of \<^verbatim>\<open>this.values[vertexY][vertexX]\<close> outside the field would throw or give
  \<^verbatim>\<open>undefined\<close>; \<open>valuesAt\<close> makes that \<open>None\<close>.
\<close>

definition valuesAt :: "grid \<Rightarrow> int \<Rightarrow> int \<Rightarrow> real option" where
  "valuesAt g vertexY vertexX =
     (if 0 \<le> vertexY \<and> vertexY < int (length g) \<and>
         0 \<le> vertexX \<and> vertexX < int (length (g ! nat vertexY))
      then Some (g ! nat vertexY ! nat vertexX) else None)"

datatype extrapolation = Returned real | Summing real real | ReadFailed

fun extrapolateVertex :: "grid \<Rightarrow> real \<Rightarrow> real \<Rightarrow> int \<times> int \<Rightarrow> extrapolation \<Rightarrow> extrapolation" where
  "extrapolateVertex g x y (vertexX, vertexY) (Summing weighedValueSum weightSum) =
     (case valuesAt g vertexY vertexX of
        None \<Rightarrow> ReadFailed
      | Some v \<Rightarrow>
          let dx = of_int vertexX - x; dy = of_int vertexY - y in
          if dx = 0 \<and> dy = 0 then Returned v
          else
            let distance = sqrt (dx * dx + dy * dy)
            in Summing (weighedValueSum + v / distance) (weightSum + 1 / distance))"
| "extrapolateVertex g x y (vertexX, vertexY) acc = acc"

definition extrapolate :: "grid \<Rightarrow> real \<Rightarrow> real \<Rightarrow> real option" where
  "extrapolate g x y =
     (let squareX = \<lfloor>x\<rfloor>; squareY = \<lfloor>y\<rfloor> in
      if squareX < 0 \<or> squareY < 0 \<or> squareX \<ge> dimX g - 1 \<or> squareY \<ge> dimY g - 1
      then Some 0
      else
        case fold (extrapolateVertex g x y)
               [(squareX, squareY), (squareX, squareY + 1),
                (squareX + 1, squareY), (squareX + 1, squareY + 1)]
               (Summing 0 0) of
          Returned v \<Rightarrow> Some v
        | Summing weighedValueSum weightSum \<Rightarrow> Some (weighedValueSum / weightSum)
        | ReadFailed \<Rightarrow> None)"

subsection \<open>mergeDisk and mergeSegment\<close>

text \<open>
  Arithmetic is exact here. The scan bounds are the floor and the ceiling of the exact
  \<open>centerX - cappingRadius\<close> and \<open>centerX + cappingRadius\<close>; the source takes them of
  the doubles these round to, so at a rounding boundary its rectangle can differ from this
  one by a column or a row, and likewise the merged values are the exact quotients.
\<close>

definition mergeDiskCell ::
  "real \<Rightarrow> real \<Rightarrow> real \<Rightarrow> MergingOperation \<Rightarrow> int \<Rightarrow> int \<Rightarrow> grid \<Rightarrow> grid" where
  "mergeDiskCell centerX centerY radiusSq operation y x g =
     (let distanceSq = max minDistanceSq (getDistanceSq (of_int x) (of_int y) centerX centerY)
      in set_value g x y (operation (get g x y) (radiusSq / distanceSq)))"

definition mergeDisk ::
  "grid \<Rightarrow> real \<Rightarrow> real \<Rightarrow> real \<Rightarrow> real \<Rightarrow> MergingOperation \<Rightarrow> grid" where
  "mergeDisk g centerX centerY radius cappingRadiusRatio operation =
     (let cappingRadius = cappingRadiusRatio * radius;
          minX = max 0 \<lfloor>centerX - cappingRadius\<rfloor>;
          minY = max 0 \<lfloor>centerY - cappingRadius\<rfloor>;
          maxX = min (dimX g - 1) \<lceil>centerX + cappingRadius\<rceil>;
          maxY = min (dimY g - 1) \<lceil>centerY + cappingRadius\<rceil>;
          radiusSq = radius * radius
      in fold (\<lambda>y. fold (mergeDiskCell centerX centerY radiusSq operation y) [minX..maxX])
           [minY..maxY] g)"

definition mergeSegmentCell ::
  "real \<Rightarrow> real \<Rightarrow> real \<Rightarrow> real \<Rightarrow> real \<Rightarrow> MergingOperation \<Rightarrow> int \<Rightarrow> int \<Rightarrow> grid \<Rightarrow> grid" where
  "mergeSegmentCell startX startY endX endY thicknessSq operation y x g =
     (let distanceSq = max minDistanceSq
            (getDistanceSqToSegment (of_int x) (of_int y) startX startY endX endY)
      in set_value g x y (operation (get g x y) (thicknessSq / distanceSq)))"

definition mergeSegment ::
  "grid \<Rightarrow> real \<Rightarrow> real \<Rightarrow> real \<Rightarrow> real \<Rightarrow> real \<Rightarrow> real \<Rightarrow> MergingOperation \<Rightarrow> grid" where
  "mergeSegment g startX startY endX endY thickness cappingRadiusRatio operation =
     (let cappingRadius = cappingRadiusRatio * thickness;
          minX = max 0 \<lfloor>min startX endX - cappingRadius\<rfloor>;
          minY = max 0 \<lfloor>min startY endY - cappingRadius\<rfloor>;
          maxX = min (dimX g - 1) \<lceil>max startX endX + cappingRadius\<rceil>;
          maxY = min (dimY g - 1) \<lceil>max startY endY + cappingRadius\<rceil>;
          thicknessSq = thickness * thickness
      in fold (\<lambda>y. fold (mergeSegmentCell startX startY endX endY thicknessSq operation y)
                      [minX..maxX])
           [minY..maxY] g)"

section \<open>Marching squares (MarchingSquares.ts)\<close>

text \<open>
  \<^verbatim>\<open>betweenX\<close> and \<^verbatim>\<open>betweenY\<close> divide by \<^verbatim>\<open>weight1 + weight2\<close>, which is zero only
  when both corners equal the threshold; the contour code calls them on edges with one
  corner above the threshold and the other not, where the sum is positive.
\<close>

definition betweenX :: "grid \<Rightarrow> int \<Rightarrow> int \<Rightarrow> int \<Rightarrow> int \<Rightarrow> real \<Rightarrow> real" where
  "betweenX g indexX1 indexY1 indexX2 indexY2 threshold =
     (let value1 = get g indexX1 indexY1; value2 = get g indexX2 indexY2;
          weight1 = \<bar>value1 - threshold\<bar>; weight2 = \<bar>value2 - threshold\<bar>
      in (weight2 * of_int indexX1 + weight1 * of_int indexX2) / (weight1 + weight2))"

definition betweenY :: "grid \<Rightarrow> int \<Rightarrow> int \<Rightarrow> int \<Rightarrow> int \<Rightarrow> real \<Rightarrow> real" where
  "betweenY g indexX1 indexY1 indexX2 indexY2 threshold =
     (let value1 = get g indexX1 indexY1; value2 = get g indexX2 indexY2;
          weight1 = \<bar>value1 - threshold\<bar>; weight2 = \<bar>value2 - threshold\<bar>
      in (weight2 * of_int indexY1 + weight1 * of_int indexY2) / (weight1 + weight2))"

text \<open>
  The markers of the lookup tables (the integers 0 to 7 of the source) and the masks of
  the four corners in a case index.
\<close>

datatype Side = South | East | North | West | SouthWest | SouthEast | NorthEast | NorthWest

definition SouthWestMask :: int where "SouthWestMask = 1"
definition SouthEastMask :: int where "SouthEastMask = 2"
definition NorthEastMask :: int where "NorthEastMask = 4"
definition NorthWestMask :: int where "NorthWestMask = 8"

definition marchingSquaresFillVertices :: "Side list list" where
  "marchingSquaresFillVertices =
    [[],
     [South, West, SouthWest],
     [East, South, SouthEast],
     [East, West, SouthWest, SouthEast],
     [North, East, NorthEast],
     [South, SouthWest, West, North, NorthEast, East],
     [South, North, NorthEast, SouthEast],
     [West, North, NorthEast, SouthEast, SouthWest],
     [West, North, NorthWest],
     [North, South, SouthWest, NorthWest],
     [South, West, NorthWest, North, East, SouthEast],
     [North, East, SouthEast, SouthWest, NorthWest],
     [East, West, NorthWest, NorthEast],
     [East, South, SouthWest, NorthWest, NorthEast],
     [South, West, NorthWest, NorthEast, SouthEast],
     []]"

definition getSquareIndex :: "grid \<Rightarrow> int \<Rightarrow> int \<Rightarrow> real \<Rightarrow> int" where
  "getSquareIndex g x y threshold =
     (let squareIndex = 0;
          squareIndex = (if get g x (y + 1) > threshold
                         then squareIndex OR SouthWestMask else squareIndex);
          squareIndex = (if get g (x + 1) (y + 1) > threshold
                         then squareIndex OR SouthEastMask else squareIndex);
          squareIndex = (if get g (x + 1) y > threshold
                         then squareIndex OR NorthEastMask else squareIndex);
          squareIndex = (if get g x y > threshold
                         then squareIndex OR NorthWestMask else squareIndex)
      in squareIndex)"

fun calcPoint :: "grid \<Rightarrow> Side \<Rightarrow> int \<Rightarrow> int \<Rightarrow> real \<Rightarrow> real \<times> real" where
  "calcPoint g South indexX indexY threshold =
     (let gridY = indexY + 1 in
      (betweenX g indexX gridY (indexX + 1) gridY threshold, of_int gridY))"
| "calcPoint g East indexX indexY threshold =
     (let gridX = indexX + 1 in
      (of_int gridX, betweenY g gridX indexY gridX (indexY + 1) threshold))"
| "calcPoint g North indexX indexY threshold =
     (let gridY = indexY in
      (betweenX g indexX gridY (indexX + 1) gridY threshold, of_int gridY))"
| "calcPoint g West indexX indexY threshold =
     (let gridX = indexX in
      (of_int gridX, betweenY g gridX indexY gridX (indexY + 1) threshold))"
| "calcPoint g SouthWest indexX indexY threshold = (of_int indexX, of_int (indexY + 1))"
| "calcPoint g SouthEast indexX indexY threshold = (of_int (indexX + 1), of_int (indexY + 1))"
| "calcPoint g NorthEast indexX indexY threshold = (of_int (indexX + 1), of_int indexY)"
| "calcPoint g NorthWest indexX indexY threshold = (of_int indexX, of_int indexY)"

text \<open>
  The calls that a \<^verbatim>\<open>ShapePainter\<close> receives, recorded as a list in the order of the
  calls.
\<close>

datatype PathEvent =
    DrawRectangle real real real real
  | BeginPath real real
  | LineTo real real
  | ClosePath
  | EndPath int int
  | OnFilledSquareChange int int

text \<open>
  \<^verbatim>\<open>fillContour\<close> is split along its loops: \<open>fillPolygon\<close> draws the path of one
  square; \<open>fillSquare\<close> is the body of the inner loop from the run-length test on, for a
  square whose case index is known; \<open>fillRow\<close> is the inner loop over one row, which
  notifies the painter of each square, classifies it and runs \<open>fillSquare\<close>. The
  classification is a parameter of \<open>fillRow\<close>; \<open>fillContour\<close> passes \<open>squareCase\<close>,
  the index of \<^verbatim>\<open>getSquareIndex\<close>, inverted when \<^verbatim>\<open>drawUnder\<close> is set.
\<close>

definition fillPolygon :: "grid \<Rightarrow> real \<Rightarrow> int \<Rightarrow> int \<Rightarrow> int \<Rightarrow> PathEvent list" where
  "fillPolygon g threshold squareX squareY squareIndex =
     (let fillVertices = marchingSquaresFillVertices ! nat squareIndex in
      (case calcPoint g (hd fillVertices) squareX squareY threshold of
         (px, py) \<Rightarrow> BeginPath px py) #
      map (\<lambda>side. case calcPoint g side squareX squareY threshold of
                     (px, py) \<Rightarrow> LineTo px py) (tl fillVertices) @
      [ClosePath, EndPath squareX squareY])"

definition fillSquare ::
  "grid \<Rightarrow> real \<Rightarrow> int \<Rightarrow> int \<Rightarrow> int \<Rightarrow> int \<Rightarrow> int \<times> PathEvent list \<Rightarrow> int \<times> PathEvent list" where
  "fillSquare g threshold maxX squareY squareX squareIndex st =
     (case st of (first15SquareX, out) \<Rightarrow>
      let first15SquareX =
            (if first15SquareX = - 1 \<and> squareIndex = 15 then squareX else first15SquareX);
          (first15SquareX, out) =
            (if first15SquareX \<noteq> - 1 then
               if squareIndex \<noteq> 15 then
                 (- 1, out @ [DrawRectangle (of_int first15SquareX) (of_int squareY)
                                (of_int squareX) (of_int (squareY + 1))])
               else if squareX = maxX - 2 then
                 (- 1, out @ [DrawRectangle (of_int first15SquareX) (of_int squareY)
                                (of_int (squareX + 1)) (of_int (squareY + 1))])
               else (first15SquareX, out)
             else (first15SquareX, out))
      in if squareIndex \<noteq> 0 \<and> squareIndex \<noteq> 15
         then (first15SquareX, out @ fillPolygon g threshold squareX squareY squareIndex)
         else (first15SquareX, out))"

definition fillRow ::
  "(int \<Rightarrow> int) \<Rightarrow> grid \<Rightarrow> real \<Rightarrow> int \<Rightarrow> int \<Rightarrow> int \<Rightarrow> PathEvent list \<Rightarrow> PathEvent list" where
  "fillRow squareIndexAt g threshold minX maxX squareY out =
     snd (fold (\<lambda>squareX st. case st of (first15SquareX, out) \<Rightarrow>
                  fillSquare g threshold maxX squareY squareX (squareIndexAt squareX)
                    (first15SquareX, out @ [OnFilledSquareChange squareX squareY]))
            [minX..maxX - 2] (- 1, out))"

definition squareCase :: "grid \<Rightarrow> real \<Rightarrow> bool \<Rightarrow> int \<Rightarrow> int \<Rightarrow> int" where
  "squareCase g threshold drawUnder squareY squareX =
     (let squareIndex = getSquareIndex g squareX squareY threshold
      in if drawUnder then 15 - squareIndex else squareIndex)"

definition fillContour ::
  "grid \<Rightarrow> int \<Rightarrow> int \<Rightarrow> int \<Rightarrow> int \<Rightarrow> real \<Rightarrow> bool \<Rightarrow> PathEvent list" where
  "fillContour g minX minY maxX maxY threshold drawUnder =
     fold (\<lambda>squareY. fillRow (squareCase g threshold drawUnder squareY) g threshold minX maxX squareY)
       [minY..maxY - 2] []"

section \<open>Flood fill and contour shading (FloodFill.ts)\<close>

text \<open>
  The nodes of the flood stack and of the two contour stacks. The pooled node objects of
  \<^verbatim>\<open>Stock\<close> are only handed out again after the loop body that popped them has
  finished with them, so a node is never shared between two stack entries and the stacks
  are modelled as lists of values, the top of a stack being the head of its list.
\<close>

record Node =
  node_x :: int
  node_y :: int

record ContourNode =
  contour_x :: int
  contour_y :: int
  contour_originX :: real
  contour_originY :: real
  contour_value :: real

type_synonym GetContourValue = "real \<Rightarrow> real \<Rightarrow> real option"

definition deltas :: "(int \<times> int) list" where
  "deltas = [(- 1, 0), (1, 0), (0, - 1), (0, 1)]"

definition checkAnAddContourNode ::
  "GetContourValue \<Rightarrow> int \<Rightarrow> int \<Rightarrow> real \<Rightarrow> real \<Rightarrow>
   grid \<times> ContourNode list \<Rightarrow> grid \<times> ContourNode list" where
  "checkAnAddContourNode getContourValue nodeX nodeY originX originY st =
     (case st of (g, nextContourStack) \<Rightarrow>
      if \<not> isInside g (of_int nodeX) (of_int nodeY) then st
      else
        let deltaX = of_int nodeX - originX;
            deltaY = of_int nodeY - originY;
            distanceSq = max minDistanceSq (deltaX * deltaX + deltaY * deltaY)
        in case getContourValue (get g nodeX nodeY) distanceSq of
             None \<Rightarrow> st
           | Some v \<Rightarrow>
               (set_value g nodeX nodeY v,
                \<lparr>contour_x = nodeX, contour_y = nodeY, contour_originX = originX,
                 contour_originY = originY, contour_value = v\<rparr> # nextContourStack))"

text \<open>
  The state of the flood phase: the field, \<^verbatim>\<open>floodStack\<close> and \<^verbatim>\<open>nextContourStack\<close>
  (\<^verbatim>\<open>contourStack\<close> stays empty during the flood). \<open>floodNeighbor\<close> is the body of the
  loop over \<^verbatim>\<open>deltas\<close>, \<open>floodStep\<close> the body of the \<^verbatim>\<open>while\<close> loop.
\<close>

type_synonym flood_state = "grid \<times> Node list \<times> ContourNode list"

definition floodNeighbor ::
  "(real \<Rightarrow> bool) \<Rightarrow> GetContourValue \<Rightarrow> int \<Rightarrow> int \<Rightarrow> int \<times> int \<Rightarrow> flood_state \<Rightarrow> flood_state" where
  "floodNeighbor canFlood getContourValue x y delta st =
     (case st of (g, floodStack, nextContourStack) \<Rightarrow>
      let neighborX = x + fst delta; neighborY = y + snd delta in
      if \<not> isInside g (of_int neighborX) (of_int neighborY) then st
      else
        let fieldValue = get g neighborX neighborY in
        if canFlood fieldValue
        then (g, \<lparr>node_x = neighborX, node_y = neighborY\<rparr> # floodStack, nextContourStack)
        else
          case checkAnAddContourNode getContourValue neighborX neighborY (of_int x) (of_int y)
                 (g, nextContourStack) of
            (g', nextContourStack') \<Rightarrow> (g', floodStack, nextContourStack'))"

definition floodStep ::
  "(real \<Rightarrow> bool) \<Rightarrow> real \<Rightarrow> GetContourValue \<Rightarrow> Node \<Rightarrow> flood_state \<Rightarrow> flood_state" where
  "floodStep canFlood fillingValue getContourValue node st =
     (case st of (g, floodStack, nextContourStack) \<Rightarrow>
      let x = node_x node; y = node_y node in
      fold (floodNeighbor canFlood getContourValue x y) deltas
        (set_value g x y fillingValue, floodStack, nextContourStack))"

text \<open>
  The \<^verbatim>\<open>while (this.floodStack.length > 0)\<close> loop. It need not terminate for an arbitrary
  predicate and filling value, so it returns an option: \<open>None\<close> is a loop that never ends.
\<close>

partial_function (option) floodLoop ::
  "(real \<Rightarrow> bool) \<Rightarrow> real \<Rightarrow> GetContourValue \<Rightarrow> grid \<Rightarrow> Node list \<Rightarrow> ContourNode list \<Rightarrow>
   (grid \<times> ContourNode list) option" where
  "floodLoop canFlood fillingValue getContourValue g floodStack nextContourStack =
     (case floodStack of
        [] \<Rightarrow> Some (g, nextContourStack)
      | node # floodStack' \<Rightarrow>
          (case floodStep canFlood fillingValue getContourValue node
                  (g, floodStack', nextContourStack) of
             (g', floodStack'', nextContourStack') \<Rightarrow>
               floodLoop canFlood fillingValue getContourValue g' floodStack''
                 nextContourStack'))"

text \<open>\<^verbatim>\<open>Math.round\<close> rounds to the nearest integer, halves upwards: \<open>\<lfloor>x + 1/2\<rfloor>\<close>.\<close>

definition floodFrom ::
  "grid \<Rightarrow> real \<Rightarrow> real \<Rightarrow> (real \<Rightarrow> bool) \<Rightarrow> real \<Rightarrow> GetContourValue \<Rightarrow>
   (grid \<times> ContourNode list) option" where
  "floodFrom g originX originY canFlood fillingValue getContourValue =
     (let x = \<lfloor>originX + 1 / 2\<rfloor>; y = \<lfloor>originY + 1 / 2\<rfloor> in
      if \<not> isInside g (of_int x) (of_int y) then Some (g, [])
      else
        let fieldValue = get g x y;
            floodStack = (if canFlood fieldValue then [\<lparr>node_x = x, node_y = y\<rparr>] else [])
        in floodLoop canFlood fillingValue getContourValue g floodStack [])"

text \<open>
  \<open>shadeNode\<close> is the body of the inner loop of \<^verbatim>\<open>shadeContour\<close>, \<open>shadeLayer\<close> the
  inner loop, which empties \<^verbatim>\<open>contourStack\<close> while it fills \<^verbatim>\<open>nextContourStack\<close>, and
  \<open>shadeLoop\<close> the outer loop, which swaps the two stacks after each layer.
\<close>

definition shadeNode ::
  "GetContourValue \<Rightarrow> ContourNode \<Rightarrow> grid \<times> ContourNode list \<Rightarrow> grid \<times> ContourNode list" where
  "shadeNode getContourValue node st =
     (case st of (g, nextContourStack) \<Rightarrow>
      if get g (contour_x node) (contour_y node) > contour_value node then st
      else
        fold (\<lambda>delta.
                let neighborX = contour_x node + fst delta;
                    neighborY = contour_y node + snd delta
                in checkAnAddContourNode getContourValue neighborX neighborY
                     (contour_originX node) (contour_originY node))
          deltas st)"

definition shadeLayer ::
  "GetContourValue \<Rightarrow> ContourNode list \<Rightarrow> grid \<times> ContourNode list \<Rightarrow> grid \<times> ContourNode list" where
  "shadeLayer getContourValue contourStack st = fold (shadeNode getContourValue) contourStack st"

partial_function (option) shadeLoop ::
  "GetContourValue \<Rightarrow> grid \<Rightarrow> ContourNode list \<Rightarrow> grid option" where
  "shadeLoop getContourValue g contourStack =
     (if contourStack = [] then Some g
      else
        (case shadeLayer getContourValue contourStack (g, []) of
           (g', nextContourStack) \<Rightarrow> shadeLoop getContourValue g' nextContourStack))"

definition shadeContour :: "GetContourValue \<Rightarrow> grid \<times> ContourNode list \<Rightarrow> grid option" where
  "shadeContour getContourValue st =
     (case st of (g, nextContourStack) \<Rightarrow> shadeLoop getContourValue g nextContourStack)"

text \<open>
  The two contour laws. Both are only called with \<open>distanceSq \<ge> minDistanceSq > 0\<close>.
  In \<^verbatim>\<open>unfillFrom\<close> a zero thickness makes \<^verbatim>\<open>distanceSq / thicknessSq\<close> infinite, which
  no field value exceeds: the law then admits nothing.
\<close>

definition fillContourValue :: "real \<Rightarrow> real \<Rightarrow> GetContourValue" where
  "fillContourValue thicknessSq cappingRadiusSq fieldValue distanceSq =
     (let v = thicknessSq / distanceSq
      in if fieldValue < v \<and> distanceSq < cappingRadiusSq then Some v else None)"

definition unfillContourValue :: "real \<Rightarrow> real \<Rightarrow> GetContourValue" where
  "unfillContourValue thicknessSq cappingRadiusSq fieldValue distanceSq =
     (if thicknessSq = 0 then None
      else
        let v = distanceSq / thicknessSq
        in if fieldValue > v \<and> distanceSq < cappingRadiusSq then Some v else None)"

definition fillFrom :: "grid \<Rightarrow> real \<Rightarrow> real \<Rightarrow> real \<Rightarrow> real \<Rightarrow> real \<Rightarrow> grid option" where
  "fillFrom g originX originY valueMax thickness cappingRadiusRatio =
     (let thicknessSq = thickness * thickness;
          fillingValue = max valueMax (thicknessSq * 1024 * 1024);
          cappingRadius = cappingRadiusRatio * thickness;
          cappingRadiusSq = cappingRadius * cappingRadius;
          getContourValue = fillContourValue thicknessSq cappingRadiusSq
      in case floodFrom g originX originY (\<lambda>fieldValue. fieldValue < valueMax) fillingValue
                getContourValue of
           None \<Rightarrow> None
         | Some st \<Rightarrow> shadeContour getContourValue st)"

definition unfillFrom :: "grid \<Rightarrow> real \<Rightarrow> real \<Rightarrow> real \<Rightarrow> real \<Rightarrow> real \<Rightarrow> grid option" where
  "unfillFrom g originX originY valueMin thickness cappingRadiusRatio =
     (let fillingValue = 0;
          thicknessSq = thickness * thickness;
          cappingRadius = cappingRadiusRatio * thickness;
          cappingRadiusSq = cappingRadius * cappingRadius;
          getContourValue = unfillContourValue thicknessSq cappingRadiusSq
      in case floodFrom g originX originY (\<lambda>fieldValue. fieldValue > valueMin) fillingValue
                getContourValue of
           None \<Rightarrow> None
         | Some st \<Rightarrow> shadeContour getContourValue st)"

section \<open>Vocabulary of the proofs\<close>

text \<open>
  Cells are pairs of integer coordinates. \<open>inGrid\<close> is \<open>isInside\<close> at integer
  coordinates, \<open>sameDims\<close> relates a field to a later state of it, and \<open>seedDistanceSq\<close>
  is the floored squared distance that \<open>checkAnAddContourNode\<close> passes to the contour law.
\<close>

definition inGrid :: "grid \<Rightarrow> int \<Rightarrow> int \<Rightarrow> bool" where
  "inGrid g x y \<longleftrightarrow> 0 \<le> x \<and> x < dimX g \<and> 0 \<le> y \<and> y < dimY g"

definition seedDistanceSq :: "int \<Rightarrow> int \<Rightarrow> real \<Rightarrow> real \<Rightarrow> real" where
  "seedDistanceSq nodeX nodeY originX originY =
     max minDistanceSq ((of_int nodeX - originX) * (of_int nodeX - originX) +
                        (of_int nodeY - originY) * (of_int nodeY - originY))"

definition sameDims :: "grid \<Rightarrow> grid \<Rightarrow> bool" where
  "sameDims g g' \<longleftrightarrow> wf_grid g' \<and> dimX g' = dimX g \<and> dimY g' = dimY g"

text \<open>
  The measures of the two loops: the cells the flood may still enter, whether the top of
  the flood stack is a cell that was filled already, and the pairs of a cell and a seed
  that the contour law would still admit.
\<close>

definition floodable :: "(real \<Rightarrow> bool) \<Rightarrow> grid \<Rightarrow> (int \<times> int) set" where
  "floodable canFlood g = {(x, y). inGrid g x y \<and> canFlood (get g x y)}"

definition topBlocked :: "(real \<Rightarrow> bool) \<Rightarrow> grid \<Rightarrow> Node list \<Rightarrow> nat" where
  "topBlocked canFlood g floodStack =
     (case floodStack of [] \<Rightarrow> 0
      | n # _ \<Rightarrow> if canFlood (get g (node_x n) (node_y n)) then 0 else 1)"

definition origins :: "ContourNode list \<Rightarrow> (real \<times> real) set" where
  "origins nodes = (\<lambda>node. (contour_originX node, contour_originY node)) ` set nodes"

definition pending :: "GetContourValue \<Rightarrow> (real \<times> real) set \<Rightarrow> grid \<Rightarrow> ((int \<times> int) \<times> (real \<times> real)) set" where
  "pending gcv seeds g =
     {((x, y), (ox, oy)). inGrid g x y \<and> (ox, oy) \<in> seeds \<and>
        gcv (get g x y) (seedDistanceSq x y ox oy) \<noteq> None}"

text \<open>
  The invariants of a fill: values only rise (\<open>raised\<close>), stay below the filling value
  where they started below it, and every cell on the flood stack started below \<open>valueMax\<close>.
\<close>

definition raised :: "grid \<Rightarrow> grid \<Rightarrow> bool" where
  "raised g0 g \<longleftrightarrow> sameDims g0 g \<and> (\<forall>x y. inGrid g0 x y \<longrightarrow> get g0 x y \<le> get g x y)"

definition fillInv :: "grid \<Rightarrow> real \<Rightarrow> real \<Rightarrow> grid \<Rightarrow> Node list \<Rightarrow> ContourNode list \<Rightarrow> bool" where
  "fillInv g0 valueMax fillingValue g floodStack nxt \<longleftrightarrow>
     raised g0 g \<and>
     (\<forall>x y. inGrid g0 x y \<longrightarrow> get g x y \<le> max (get g0 x y) fillingValue) \<and>
     (\<forall>n \<in> set floodStack. inGrid g0 (node_x n) (node_y n) \<and>
        get g0 (node_x n) (node_y n) < valueMax)"

text \<open>
  The region of the flood, in the words of the specification: the cells reachable from the
  origin cell by steps to one of the four neighbours, through cells inside the field whose
  value is below \<open>valueMax\<close>.
\<close>

inductive reach :: "grid \<Rightarrow> real \<Rightarrow> int \<times> int \<Rightarrow> int \<times> int \<Rightarrow> bool"
  for g :: grid and valueMax :: real and origin :: "int \<times> int" where
  start: "inGrid g (fst origin) (snd origin) \<Longrightarrow> get g (fst origin) (snd origin) < valueMax \<Longrightarrow>
    reach g valueMax origin origin"
| step: "reach g valueMax origin (x, y) \<Longrightarrow> d \<in> set deltas \<Longrightarrow>
    inGrid g (x + fst d) (y + snd d) \<Longrightarrow> get g (x + fst d) (y + snd d) < valueMax \<Longrightarrow>
    reach g valueMax origin (x + fst d, y + snd d)"

definition nodePos :: "Node \<Rightarrow> int \<times> int" where
  "nodePos n = (node_x n, node_y n)"

text \<open>
  The invariant of a flood that shades nothing: a cell is unchanged or a filled cell of the
  region, the stack holds cells of the region, the origin is filled or on the stack, and so
  is every neighbour in the region of a filled cell.
\<close>

definition floodedInv :: "grid \<Rightarrow> int \<times> int \<Rightarrow> grid \<Rightarrow> Node list \<Rightarrow> ContourNode list \<Rightarrow> bool" where
  "floodedInv g0 origin g floodStack nxt \<longleftrightarrow>
     sameDims g0 g \<and> nxt = [] \<and>
     (\<forall>x y. inGrid g0 x y \<longrightarrow>
        get g x y = get g0 x y \<or> (reach g0 1 origin (x, y) \<and> get g x y = 1)) \<and>
     (\<forall>p \<in> nodePos ` set floodStack. reach g0 1 origin p) \<and>
     (reach g0 1 origin origin \<longrightarrow>
        get g (fst origin) (snd origin) = 1 \<or> origin \<in> nodePos ` set floodStack) \<and>
     (\<forall>x y d. reach g0 1 origin (x, y) \<longrightarrow> get g x y = 1 \<longrightarrow> d \<in> set deltas \<longrightarrow>
        reach g0 1 origin (x + fst d, y + snd d) \<longrightarrow>
        get g (x + fst d) (y + snd d) = 1 \<or>
        (x + fst d, y + snd d) \<in> nodePos ` set floodStack)"

text \<open>The field of the test \<^verbatim>\<open>can fill a square\<close> and the field it expects.\<close>

definition squareFixture :: grid where
  "squareFixture =
    [[0, 0, 0, 0, 0, 0, 0, 0],
     [0, 0, 1, 1, 1, 1, 0, 0],
     [0, 1, 0, 0, 0, 0, 1, 0],
     [0, 1, 0, 0, 0, 0, 1, 0],
     [0, 1, 0, 0, 0, 0, 1, 0],
     [0, 1, 0, 0, 0, 0, 1, 0],
     [0, 0, 1, 1, 1, 1, 0, 0],
     [0, 0, 0, 0, 0, 0, 0, 0]]"

definition squareFilled :: grid where
  "squareFilled =
    [[0, 0, 0, 0, 0, 0, 0, 0],
     [0, 0, 1, 1, 1, 1, 0, 0],
     [0, 1, 1, 1, 1, 1, 1, 0],
     [0, 1, 1, 1, 1, 1, 1, 0],
     [0, 1, 1, 1, 1, 1, 1, 0],
     [0, 1, 1, 1, 1, 1, 1, 0],
     [0, 0, 1, 1, 1, 1, 0, 0],
     [0, 0, 0, 0, 0, 0, 0, 0]]"

section \<open>Reading and writing cells\<close>

lemma isInside_int:
  "isInside g (of_int x) (of_int y) \<longleftrightarrow> 0 \<le> x \<and> x < dimX g \<and> 0 \<le> y \<and> y < dimY g"
proof -
  have "(real_of_int x \<le> real_of_int (dimX g - 1)) = (x \<le> dimX g - 1)"
    "(real_of_int y \<le> real_of_int (dimY g - 1)) = (y \<le> dimY g - 1)"
    by (simp_all only: of_int_le_iff)
  then show ?thesis
    unfolding isInside_def by auto
qed

lemma dimY_set_value [simp]: "dimY (set_value g x y v) = dimY g"
  by (simp add: dimY_def set_value_def)

lemma dimX_set_value [simp]: "dimX (set_value g x y v) = dimX g"
proof (cases g)
  case Nil
  then show ?thesis by (simp add: dimX_def set_value_def)
next
  case (Cons r rs)
  then show ?thesis
    by (cases "nat y") (simp_all add: dimX_def set_value_def)
qed

lemma wf_set_value: "wf_grid g \<Longrightarrow> wf_grid (set_value g x y v)"
proof -
  assume w: "wf_grid g"
  have "int (length row) = dimX g" if "row \<in> set (set_value g x y v)" for row
  proof -
    from that have "row \<in> insert ((g ! nat y)[nat x := v]) (set g)"
      unfolding set_value_def using set_update_subset_insert by fastforce
    then show ?thesis
    proof
      assume r: "row = (g ! nat y)[nat x := v]"
      show ?thesis
      proof (cases "nat y < length g")
        case True
        then have "g ! nat y \<in> set g" by simp
        with w r show ?thesis by (simp add: wf_grid_def)
      next
        case False
        then have "set_value g x y v = g" by (simp add: set_value_def list_update_beyond)
        with that w show ?thesis by (simp add: wf_grid_def)
      qed
    next
      assume "row \<in> set g"
      with w show ?thesis by (simp add: wf_grid_def)
    qed
  qed
  then show ?thesis
    by (simp add: wf_grid_def)
qed

lemma get_set_value:
  assumes "wf_grid g" "0 \<le> x" "x < dimX g" "0 \<le> y" "y < dimY g" "0 \<le> x'" "0 \<le> y'"
  shows "get (set_value g x y v) x' y' = (if x' = x \<and> y' = y then v else get g x' y')"
proof -
  from assms have ly: "nat y < length g"
    by (simp add: dimY_def)
  then have "g ! nat y \<in> set g" by simp
  with assms(1) have "int (length (g ! nat y)) = dimX g"
    by (simp add: wf_grid_def)
  with assms have lx: "nat x < length (g ! nat y)"
    by linarith
  from assms have ne: "x' = x \<longleftrightarrow> nat x' = nat x" "y' = y \<longleftrightarrow> nat y' = nat y"
    by auto
  show ?thesis
    using ly lx by (simp add: get_def set_value_def ne nth_list_update)
qed

lemma inGrid_isInside: "isInside g (of_int x) (of_int y) \<longleftrightarrow> inGrid g x y"
  by (simp add: isInside_int inGrid_def)

lemma sameDims_refl: "wf_grid g \<Longrightarrow> sameDims g g"
  by (simp add: sameDims_def)

lemma sameDims_set_value: "sameDims g g' \<Longrightarrow> sameDims g (set_value g' x y v)"
  by (simp add: sameDims_def wf_set_value)

lemma sameDims_inGrid: "sameDims g g' \<Longrightarrow> inGrid g' x y = inGrid g x y"
  by (simp add: sameDims_def inGrid_def)

lemma get_set_value_inGrid:
  assumes "wf_grid g" "inGrid g x y" "inGrid g x' y'"
  shows "get (set_value g x y v) x' y' = (if x' = x \<and> y' = y then v else get g x' y')"
  using assms get_set_value [of g x y x' y' v] by (simp add: inGrid_def)

lemma cells_finite: "finite {(x, y). inGrid g x y}"
proof -
  have "{(x, y). inGrid g x y} \<subseteq> {0..<dimX g} \<times> {0..<dimY g}"
    by (auto simp: inGrid_def)
  then show ?thesis
    by (rule finite_subset) simp
qed

text \<open>A fold of cell updates along a row, and then over the rows.\<close>

lemma fold_row_update:
  assumes "wf_grid g" "0 \<le> y" "y < dimY g" "distinct xs" "\<forall>x \<in> set xs. 0 \<le> x \<and> x < dimX g"
  shows "wf_grid (fold (\<lambda>x g. set_value g x y (h x (get g x y))) xs g) \<and>
         dimX (fold (\<lambda>x g. set_value g x y (h x (get g x y))) xs g) = dimX g \<and>
         dimY (fold (\<lambda>x g. set_value g x y (h x (get g x y))) xs g) = dimY g \<and>
         (\<forall>x' y'. 0 \<le> x' \<longrightarrow> 0 \<le> y' \<longrightarrow>
            get (fold (\<lambda>x g. set_value g x y (h x (get g x y))) xs g) x' y' =
              (if y' = y \<and> x' \<in> set xs then h x' (get g x' y') else get g x' y'))"
  using assms
proof (induction xs arbitrary: g)
  case Nil
  then show ?case by simp
next
  case (Cons a xs)
  let ?g1 = "set_value g a y (h a (get g a y))"
  have a: "0 \<le> a" "a < dimX g" "a \<notin> set xs"
    using Cons.prems by auto
  have w1: "wf_grid ?g1"
    using Cons.prems(1) by (rule wf_set_value)
  have ih: "wf_grid (fold (\<lambda>x g. set_value g x y (h x (get g x y))) xs ?g1) \<and>
         dimX (fold (\<lambda>x g. set_value g x y (h x (get g x y))) xs ?g1) = dimX ?g1 \<and>
         dimY (fold (\<lambda>x g. set_value g x y (h x (get g x y))) xs ?g1) = dimY ?g1 \<and>
         (\<forall>x' y'. 0 \<le> x' \<longrightarrow> 0 \<le> y' \<longrightarrow>
            get (fold (\<lambda>x g. set_value g x y (h x (get g x y))) xs ?g1) x' y' =
              (if y' = y \<and> x' \<in> set xs then h x' (get ?g1 x' y') else get ?g1 x' y'))"
    using Cons.prems by (intro Cons.IH w1) simp_all
  have g1: "get ?g1 x' y' = (if x' = a \<and> y' = y then h a (get g a y) else get g x' y')"
    if "0 \<le> x'" "0 \<le> y'" for x' y'
    using get_set_value [OF Cons.prems(1) a(1,2) Cons.prems(2,3) that] .
  show ?case
    using ih a(3) by (auto simp: g1)
qed

lemma fold_grid_update:
  assumes "wf_grid g" "distinct ys" "\<forall>y \<in> set ys. 0 \<le> y \<and> y < dimY g"
    "distinct xs" "\<forall>x \<in> set xs. 0 \<le> x \<and> x < dimX g"
  shows "wf_grid (fold (\<lambda>y. fold (\<lambda>x g. set_value g x y (h y x (get g x y))) xs) ys g) \<and>
         dimX (fold (\<lambda>y. fold (\<lambda>x g. set_value g x y (h y x (get g x y))) xs) ys g) = dimX g \<and>
         dimY (fold (\<lambda>y. fold (\<lambda>x g. set_value g x y (h y x (get g x y))) xs) ys g) = dimY g \<and>
         (\<forall>x' y'. 0 \<le> x' \<longrightarrow> 0 \<le> y' \<longrightarrow>
            get (fold (\<lambda>y. fold (\<lambda>x g. set_value g x y (h y x (get g x y))) xs) ys g) x' y' =
              (if y' \<in> set ys \<and> x' \<in> set xs then h y' x' (get g x' y') else get g x' y'))"
  using assms
proof (induction ys arbitrary: g)
  case Nil
  then show ?case by simp
next
  case (Cons b ys)
  let ?row = "\<lambda>y. fold (\<lambda>x g. set_value g x y (h y x (get g x y))) xs"
  let ?g1 = "?row b g"
  have b: "0 \<le> b" "b < dimY g" "b \<notin> set ys"
    using Cons.prems by auto
  note r = fold_row_update [OF Cons.prems(1) b(1,2) Cons.prems(4,5), of "h b"]
  have ih: "wf_grid (fold ?row ys ?g1) \<and>
         dimX (fold ?row ys ?g1) = dimX ?g1 \<and>
         dimY (fold ?row ys ?g1) = dimY ?g1 \<and>
         (\<forall>x' y'. 0 \<le> x' \<longrightarrow> 0 \<le> y' \<longrightarrow>
            get (fold ?row ys ?g1) x' y' =
              (if y' \<in> set ys \<and> x' \<in> set xs then h y' x' (get ?g1 x' y') else get ?g1 x' y'))"
    using Cons.prems r by (intro Cons.IH) simp_all
  show ?case
    using ih r b(3) by auto
qed

section \<open>Properties of the scalar field\<close>

text \<open>
  C7. A degenerate segment, both extremities at \<open>(x1, y1)\<close>, merges exactly like a disk
  centred there whose radius is the thickness: the two fields are equal, cell for cell.
\<close>

theorem mergeSegment_degenerate_eq_mergeDisk:
  "mergeSegment g x1 y1 x1 y1 t r operation = mergeDisk g x1 y1 t r operation"
proof -
  have cell: "mergeSegmentCell x1 y1 x1 y1 ts operation = mergeDiskCell x1 y1 ts operation"
    for ts
    by (intro ext)
       (simp add: mergeSegmentCell_def mergeDiskCell_def getDistanceSqToSegment_def
          getDistanceSq_def)
  show ?thesis
    by (simp add: mergeSegment_def mergeDisk_def cell)
qed

text \<open>
  C9. When the enclosing cell \<open>(\<lfloor>x\<rfloor>, \<lfloor>y\<rfloor>)\<close> of the query point is outside
  \<open>[0, dimX - 2] \<times> [0, dimY - 2]\<close>, \<open>extrapolate\<close> returns the value 0: it reads no
  cell and does not fail.
\<close>

theorem extrapolate_outside_is_zero:
  assumes "\<not> (0 \<le> \<lfloor>x\<rfloor> \<and> \<lfloor>x\<rfloor> \<le> dimX g - 2 \<and> 0 \<le> \<lfloor>y\<rfloor> \<and> \<lfloor>y\<rfloor> \<le> dimY g - 2)"
  shows "extrapolate g x y = Some 0"
proof -
  from assms have "\<lfloor>x\<rfloor> < 0 \<or> \<lfloor>y\<rfloor> < 0 \<or> \<lfloor>x\<rfloor> \<ge> dimX g - 1 \<or> \<lfloor>y\<rfloor> \<ge> dimY g - 1"
    by linarith
  then show ?thesis
    by (simp add: extrapolate_def Let_def)
qed

theorem extrapolate_outside_is_zero_witness:
  "\<not> (0 \<le> \<lfloor>5/2 :: real\<rfloor> \<and> \<lfloor>5/2 :: real\<rfloor> \<le> dimX [[1, 2, 3], [4, 5, 6]] - 2 \<and>
      0 \<le> \<lfloor>1/2 :: real\<rfloor> \<and> \<lfloor>1/2 :: real\<rfloor> \<le> dimY [[1, 2, 3], [4, 5, 6]] - 2) \<and>
   extrapolate [[1, 2, 3], [4, 5, 6]] (5/2) (1/2) = Some 0"
proof -
  have out: "\<not> (0 \<le> \<lfloor>5/2 :: real\<rfloor> \<and> \<lfloor>5/2 :: real\<rfloor> \<le> dimX [[1, 2, 3], [4, 5, 6]] - 2 \<and>
      0 \<le> \<lfloor>1/2 :: real\<rfloor> \<and> \<lfloor>1/2 :: real\<rfloor> \<le> dimY [[1, 2, 3], [4, 5, 6]] - 2)"
    by (simp add: dimX_def dimY_def)
  from out extrapolate_outside_is_zero [OF out] show ?thesis
    by blast
qed


text \<open>
  C4 as stated fails: the scan has no Euclidean test. On a 3 by 3 field of zeros, a disk of
  radius 1 and capping ratio 1 at \<open>(1, 1)\<close>, merged by addition, changes the corner cell
  \<open>(0, 0)\<close> to \<open>1/2\<close>, although its squared distance 2 to the centre exceeds the
  squared capping radius 1.
\<close>

theorem mergeDisk_corner_counterexample:
  "get (mergeDisk [[0, 0, 0], [0, 0, 0], [0, 0, 0]] 1 1 1 1 (+)) 0 0 = 1 / 2 \<and>
   getDistanceSq 0 0 1 1 > (1 * 1) * (1 * 1) \<and>
   get [[0, 0, 0], [0, 0, 0], [0, 0, 0]] 0 0 = 0"
  by (simp add: mergeDisk_def mergeDiskCell_def dimX_def dimY_def minDistanceSq_def
        getDistanceSq_def get_def set_value_def Let_def upto_rec1)

text \<open>
  C4, amended. With arithmetic taken over exact reals, in a rectangular field \<open>mergeDisk\<close>
  combines \<open>operation current (radius\<^sup>2 / max minDistanceSq distance\<^sup>2)\<close> into exactly the
  cells of the field inside the scan rectangle \<open>\<lfloor>centerX - cap\<rfloor> \<le> x \<le> \<lceil>centerX + cap\<rceil>\<close>,
  \<open>\<lfloor>centerY - cap\<rfloor> \<le> y \<le> \<lceil>centerY + cap\<rceil>\<close> with \<open>cap = cappingRadiusRatio * radius\<close>;
  every cell outside that rectangle keeps its value. (In doubles the rectangle is that of
  the rounded \<open>centerX - cap\<close>, \<open>centerX + cap\<close>, \<open>centerY - cap\<close>, \<open>centerY + cap\<close>.)
\<close>

theorem mergeDisk_scan_rectangle:
  assumes "wf_grid g" and "0 \<le> x" "x < dimX g" "0 \<le> y" "y < dimY g"
  shows "get (mergeDisk g centerX centerY radius cappingRadiusRatio operation) x y =
           (if \<lfloor>centerX - cappingRadiusRatio * radius\<rfloor> \<le> x \<and>
               x \<le> \<lceil>centerX + cappingRadiusRatio * radius\<rceil> \<and>
               \<lfloor>centerY - cappingRadiusRatio * radius\<rfloor> \<le> y \<and>
               y \<le> \<lceil>centerY + cappingRadiusRatio * radius\<rceil>
            then operation (get g x y)
                   (radius * radius /
                      max minDistanceSq (getDistanceSq (of_int x) (of_int y) centerX centerY))
            else get g x y)"
proof -
  define cap where "cap = cappingRadiusRatio * radius"
  define xs where "xs = [max 0 \<lfloor>centerX - cap\<rfloor>..min (dimX g - 1) \<lceil>centerX + cap\<rceil>]"
  define ys where "ys = [max 0 \<lfloor>centerY - cap\<rfloor>..min (dimY g - 1) \<lceil>centerY + cap\<rceil>]"
  define h where "h = (\<lambda>(y::int) (x::int) old. operation old
      (radius * radius / max minDistanceSq (getDistanceSq (of_int x) (of_int y) centerX centerY)))"
  have cell: "mergeDiskCell centerX centerY (radius * radius) operation =
      (\<lambda>y x g. set_value g x y (h y x (get g x y)))"
    by (intro ext) (simp add: mergeDiskCell_def h_def Let_def)
  have m: "mergeDisk g centerX centerY radius cappingRadiusRatio operation =
      fold (\<lambda>y. fold (\<lambda>x g. set_value g x y (h y x (get g x y))) xs) ys g"
    by (simp add: mergeDisk_def Let_def cell xs_def ys_def cap_def)
  have "distinct ys" "\<forall>y \<in> set ys. 0 \<le> y \<and> y < dimY g"
    "distinct xs" "\<forall>x \<in> set xs. 0 \<le> x \<and> x < dimX g"
    by (auto simp: xs_def ys_def)
  from fold_grid_update [OF assms(1) this, of h] assms(2,4)
  have "get (fold (\<lambda>y. fold (\<lambda>x g. set_value g x y (h y x (get g x y))) xs) ys g) x y =
      (if y \<in> set ys \<and> x \<in> set xs then h y x (get g x y) else get g x y)"
    by blast
  moreover have "y \<in> set ys \<and> x \<in> set xs \<longleftrightarrow>
      \<lfloor>centerX - cap\<rfloor> \<le> x \<and> x \<le> \<lceil>centerX + cap\<rceil> \<and> \<lfloor>centerY - cap\<rfloor> \<le> y \<and> y \<le> \<lceil>centerY + cap\<rceil>"
    using assms(2-5) by (auto simp: xs_def ys_def)
  ultimately show ?thesis
    unfolding m by (simp add: h_def cap_def)
qed

theorem mergeDisk_scan_rectangle_witness:
  "wf_grid [[0, 0, 0], [0, 0, 0], [0, 0, 0]] \<and>
   get (mergeDisk [[0, 0, 0], [0, 0, 0], [0, 0, 0]] 1 1 1 1 (+)) 0 0 =
     0 + 1 * 1 / max minDistanceSq (getDistanceSq 0 0 1 1) \<and>
   get (mergeDisk [[0, 0, 0], [0, 0, 0], [0, 0, 0]] 3 1 1 1 (+)) 0 0 = 0"
proof -
  have w: "wf_grid [[0, 0, 0], [0, 0, 0], [0, 0, 0]]"
    by (simp add: wf_grid_def dimX_def)
  have d: "dimX [[0, 0, 0], [0, 0, 0], [0, 0, 0]] = 3" "dimY [[0, 0, 0], [0, 0, 0], [0, 0, 0]] = 3"
    by (simp_all add: dimX_def dimY_def)
  from mergeDisk_scan_rectangle [OF w, of 0 0 1 1 1 1 "(+)"]
    mergeDisk_scan_rectangle [OF w, of 0 0 3 1 1 1 "(+)"] w d
  show ?thesis
    by (simp add: get_def)
qed

section \<open>Properties of the contour extraction\<close>


lemmas mask_defs = SouthWestMask_def SouthEastMask_def NorthEastMask_def NorthWestMask_def






text \<open>
  C6 as stated fails for case 15: a scan of one full square ends its run at the end of
  the row and draws the rectangle of that square.
\<close>

theorem fillContour_case_15_counterexample:
  "squareCase [[1, 1], [1, 1]] (1/2) False 0 0 = 15 \<and>
   fillContour [[1, 1], [1, 1]] 0 0 2 2 (1/2) False =
     [OnFilledSquareChange 0 0, DrawRectangle 0 0 1 1]"
  by (simp add: fillContour_def fillRow_def fillSquare_def squareCase_def getSquareIndex_def
        get_def mask_defs Let_def)

text \<open>
  C6, amended. A scan of the single square \<open>(x, y)\<close> of the field emits the notification
  of that square and then: nothing when the (possibly inverted) case is 0; exactly one
  rectangle, covering the square, and no polygon path when the case is 15.
\<close>

theorem fillContour_single_cell:
  assumes "0 \<le> x"
  shows "(squareCase g threshold drawUnder y x = 0 \<longrightarrow>
            fillContour g x y (x + 2) (y + 2) threshold drawUnder = [OnFilledSquareChange x y]) \<and>
         (squareCase g threshold drawUnder y x = 15 \<longrightarrow>
            fillContour g x y (x + 2) (y + 2) threshold drawUnder =
              [OnFilledSquareChange x y,
               DrawRectangle (of_int x) (of_int y) (of_int x + 1) (of_int y + 1)])"
  using assms
  by (simp add: fillContour_def fillRow_def fillSquare_def Let_def)

theorem fillContour_single_cell_witness:
  "(0::int) \<le> 0 \<and> squareCase [[0, 0], [0, 0]] (1/2) True 0 0 = 15 \<and>
   fillContour [[0, 0], [0, 0]] 0 0 (0 + 2) (0 + 2) (1/2) True =
     [OnFilledSquareChange 0 0, DrawRectangle 0 0 (0 + 1) (0 + 1)] \<and>
   squareCase [[0, 0], [0, 0]] (1/2) False 0 0 = 0 \<and>
   fillContour [[0, 0], [0, 0]] 0 0 (0 + 2) (0 + 2) (1/2) False = [OnFilledSquareChange 0 0]"
proof -
  have a: "squareCase [[0, 0], [0, 0]] (1/2) True 0 0 = 15"
    by (simp add: squareCase_def getSquareIndex_def get_def mask_defs Let_def)
  have b: "squareCase [[0, 0], [0, 0]] (1/2) False 0 0 = 0"
    by (simp add: squareCase_def getSquareIndex_def get_def mask_defs Let_def)
  from a b fillContour_single_cell [of 0 "[[0, 0], [0, 0]]" "1/2" True 0]
    fillContour_single_cell [of 0 "[[0, 0], [0, 0]]" "1/2" False 0]
  show ?thesis by simp
qed

text \<open>
  C8 as stated fails when both corner values are on the same side of the threshold: with
  corner values 1 and 2 at \<open>x = 0\<close> and \<open>x = 1\<close> and threshold 0, the weighted mean is
  \<open>1/3\<close> while the linear-interpolation crossing is \<open>-1\<close>.
\<close>

theorem between_same_side_counterexample:
  "get [[1, 2]] 0 0 \<noteq> 0 \<and> get [[1, 2]] 1 0 \<noteq> 0 \<and>
   betweenX [[1, 2]] 0 0 1 0 0 = 1 / 3 \<and>
   of_int 0 + (0 - get [[1, 2]] 0 0) / (get [[1, 2]] 1 0 - get [[1, 2]] 0 0) * (of_int 1 - of_int 0)
     = (- 1 :: real)"
  by (simp add: betweenX_def get_def)

text \<open>
  C8, amended. When the two corner values \<open>v1\<close>, \<open>v2\<close> lie strictly on opposite sides of
  the threshold, the weighted means of \<open>betweenX\<close> and \<open>betweenY\<close> are the crossing
  \<open>c1 + (threshold - v1) / (v2 - v1) * (c2 - c1)\<close> of linear interpolation.
\<close>

theorem between_is_linear_interpolation:
  assumes "v1 = get g x1 y1" and "v2 = get g x2 y2"
    and "(v1 < threshold \<and> threshold < v2) \<or> (v2 < threshold \<and> threshold < v1)"
  shows "betweenX g x1 y1 x2 y2 threshold =
           of_int x1 + (threshold - v1) / (v2 - v1) * (of_int x2 - of_int x1) \<and>
         betweenY g x1 y1 x2 y2 threshold =
           of_int y1 + (threshold - v1) / (v2 - v1) * (of_int y2 - of_int y1)"
proof -
  have interp:
    "(\<bar>v2 - threshold\<bar> * c1 + \<bar>v1 - threshold\<bar> * c2) / (\<bar>v1 - threshold\<bar> + \<bar>v2 - threshold\<bar>)
        = c1 + (threshold - v1) / (v2 - v1) * (c2 - c1)" for c1 c2 :: real
    using assms(3)
  proof
    assume h: "v1 < threshold \<and> threshold < v2"
    then have "\<bar>v2 - threshold\<bar> = v2 - threshold" "\<bar>v1 - threshold\<bar> = threshold - v1"
      "v2 - v1 \<noteq> 0"
      by simp_all
    then show ?thesis
      by (simp add: field_simps)
  next
    assume h: "v2 < threshold \<and> threshold < v1"
    then have "\<bar>v2 - threshold\<bar> = threshold - v2" "\<bar>v1 - threshold\<bar> = v1 - threshold"
      "v2 - v1 \<noteq> 0" "v1 - v2 \<noteq> 0"
      by simp_all
    then show ?thesis
      by (simp add: field_simps)
  qed
  show ?thesis
    unfolding betweenX_def betweenY_def Let_def assms(1) [symmetric] assms(2) [symmetric]
    by (simp only: interp)
qed

theorem between_is_linear_interpolation_witness:
  "((0::real) < 1/2 \<and> (1/2::real) < 1) \<and>
   betweenX [[0, 1]] 0 0 1 0 (1/2) = 1/2 \<and> betweenY [[0, 1]] 0 0 1 0 (1/2) = 0"
  using between_is_linear_interpolation [of 0 "[[0, 1]]" 0 0 1 1 0 "1/2"]
  by (simp add: get_def)

section \<open>Properties of the flood fill\<close>

subsection \<open>One step of each loop\<close>

text \<open>
  \<open>checkAnAddContourNode\<close> leaves the state alone or admits the cell. The rules below
  carry a property through one flood step and through one layer of the shading, given that
  each push and each admission keeps it.
\<close>

lemma checkAnAddContourNode_cases:
  obtains (same) "checkAnAddContourNode gcv nx ny ox oy (g, nxt) = (g, nxt)"
  | (admit) v where "inGrid g nx ny"
      "gcv (get g nx ny) (seedDistanceSq nx ny ox oy) = Some v"
      "checkAnAddContourNode gcv nx ny ox oy (g, nxt) =
         (set_value g nx ny v,
          \<lparr>contour_x = nx, contour_y = ny, contour_originX = ox, contour_originY = oy,
           contour_value = v\<rparr> # nxt)"
proof (cases "inGrid g nx ny")
  case False
  then have "checkAnAddContourNode gcv nx ny ox oy (g, nxt) = (g, nxt)"
    by (simp add: checkAnAddContourNode_def inGrid_isInside)
  then show ?thesis by (rule same)
next
  case True
  show ?thesis
  proof (cases "gcv (get g nx ny) (seedDistanceSq nx ny ox oy)")
    case None
    then have "checkAnAddContourNode gcv nx ny ox oy (g, nxt) = (g, nxt)"
      by (simp add: checkAnAddContourNode_def inGrid_isInside seedDistanceSq_def Let_def)
    then show ?thesis by (rule same)
  next
    case (Some v)
    with True show ?thesis
      by (intro admit [of v])
         (simp_all add: checkAnAddContourNode_def inGrid_isInside seedDistanceSq_def Let_def)
  qed
qed

lemma floodNeighbor_rule:
  assumes P: "P g st nx"
    and push: "inGrid g (x + fst d) (y + snd d) \<Longrightarrow> canFlood (get g (x + fst d) (y + snd d)) \<Longrightarrow>
        P g (\<lparr>node_x = x + fst d, node_y = y + snd d\<rparr> # st) nx"
    and admit: "\<And>v. inGrid g (x + fst d) (y + snd d) \<Longrightarrow>
        \<not> canFlood (get g (x + fst d) (y + snd d)) \<Longrightarrow>
        gcv (get g (x + fst d) (y + snd d))
          (seedDistanceSq (x + fst d) (y + snd d) (of_int x) (of_int y)) = Some v \<Longrightarrow>
        P (set_value g (x + fst d) (y + snd d) v) st
          (\<lparr>contour_x = x + fst d, contour_y = y + snd d, contour_originX = of_int x,
            contour_originY = of_int y, contour_value = v\<rparr> # nx)"
  shows "case floodNeighbor canFlood gcv x y d (g, st, nx) of (g', st', nx') \<Rightarrow> P g' st' nx'"
proof (cases "inGrid g (x + fst d) (y + snd d)")
  case False
  then show ?thesis
    using P by (simp add: floodNeighbor_def inGrid_isInside Let_def)
next
  case True
  show ?thesis
  proof (cases "canFlood (get g (x + fst d) (y + snd d))")
    case c: True
    then show ?thesis
      using True push by (simp add: floodNeighbor_def inGrid_isInside Let_def)
  next
    case c: False
    show ?thesis
    proof (cases rule: checkAnAddContourNode_cases
        [of gcv "x + fst d" "y + snd d" "of_int x" "of_int y" g nx])
      case same
      then show ?thesis
        using True c P by (simp add: floodNeighbor_def inGrid_isInside Let_def)
    next
      case (admit v)
      then show ?thesis
        using True c assms(3) [of v] by (simp add: floodNeighbor_def inGrid_isInside Let_def)
    qed
  qed
qed

lemma floodNeighbors_rule:
  assumes P: "P g st nx" and d: "sameDims g0 g"
    and push: "\<And>g st nx d. P g st nx \<Longrightarrow> sameDims g0 g \<Longrightarrow> d \<in> set ds \<Longrightarrow>
        inGrid g (x + fst d) (y + snd d) \<Longrightarrow> canFlood (get g (x + fst d) (y + snd d)) \<Longrightarrow>
        P g (\<lparr>node_x = x + fst d, node_y = y + snd d\<rparr> # st) nx"
    and admit: "\<And>g st nx d v. P g st nx \<Longrightarrow> sameDims g0 g \<Longrightarrow> d \<in> set ds \<Longrightarrow>
        inGrid g (x + fst d) (y + snd d) \<Longrightarrow>
        \<not> canFlood (get g (x + fst d) (y + snd d)) \<Longrightarrow>
        gcv (get g (x + fst d) (y + snd d))
          (seedDistanceSq (x + fst d) (y + snd d) (of_int x) (of_int y)) = Some v \<Longrightarrow>
        P (set_value g (x + fst d) (y + snd d) v) st
          (\<lparr>contour_x = x + fst d, contour_y = y + snd d, contour_originX = of_int x,
            contour_originY = of_int y, contour_value = v\<rparr> # nx)"
  shows "case fold (floodNeighbor canFlood gcv x y) ds (g, st, nx) of
           (g', st', nx') \<Rightarrow> P g' st' nx' \<and> sameDims g0 g'"
  using assms
proof (induction ds arbitrary: g st nx)
  case Nil
  then show ?case by simp
next
  case (Cons a ds)
  have one: "case floodNeighbor canFlood gcv x y a (g, st, nx) of
      (g', st', nx') \<Rightarrow> P g' st' nx' \<and> sameDims g0 g'"
    by (rule floodNeighbor_rule)
       (use Cons.prems in \<open>auto intro: sameDims_set_value\<close>)
  obtain g1 st1 nx1 where s1: "floodNeighbor canFlood gcv x y a (g, st, nx) = (g1, st1, nx1)"
    by (cases "floodNeighbor canFlood gcv x y a (g, st, nx)") auto
  with one have p1: "P g1 st1 nx1" "sameDims g0 g1"
    by auto
  have "case fold (floodNeighbor canFlood gcv x y) ds (g1, st1, nx1) of
      (g', st', nx') \<Rightarrow> P g' st' nx' \<and> sameDims g0 g'"
    by (rule Cons.IH [OF p1]) (use Cons.prems in auto)
  then show ?case
    by (simp add: s1)
qed

lemma floodStep_rule:
  assumes d: "sameDims g0 g"
    and base: "P (set_value g (node_x n) (node_y n) fv) rest nxt"
    and push: "\<And>g st nx d. P g st nx \<Longrightarrow> sameDims g0 g \<Longrightarrow> d \<in> set deltas \<Longrightarrow>
        inGrid g (node_x n + fst d) (node_y n + snd d) \<Longrightarrow>
        canFlood (get g (node_x n + fst d) (node_y n + snd d)) \<Longrightarrow>
        P g (\<lparr>node_x = node_x n + fst d, node_y = node_y n + snd d\<rparr> # st) nx"
    and admit: "\<And>g st nx d v. P g st nx \<Longrightarrow> sameDims g0 g \<Longrightarrow> d \<in> set deltas \<Longrightarrow>
        inGrid g (node_x n + fst d) (node_y n + snd d) \<Longrightarrow>
        \<not> canFlood (get g (node_x n + fst d) (node_y n + snd d)) \<Longrightarrow>
        gcv (get g (node_x n + fst d) (node_y n + snd d))
          (seedDistanceSq (node_x n + fst d) (node_y n + snd d)
             (of_int (node_x n)) (of_int (node_y n))) = Some v \<Longrightarrow>
        P (set_value g (node_x n + fst d) (node_y n + snd d) v) st
          (\<lparr>contour_x = node_x n + fst d, contour_y = node_y n + snd d,
            contour_originX = of_int (node_x n), contour_originY = of_int (node_y n),
            contour_value = v\<rparr> # nx)"
  shows "case floodStep canFlood fv gcv n (g, rest, nxt) of
           (g', st', nx') \<Rightarrow> P g' st' nx' \<and> sameDims g0 g'"
  unfolding floodStep_def prod.case Let_def
  by (rule floodNeighbors_rule [where P = P and ?g0.0 = g0])
     (use assms in \<open>auto intro: sameDims_set_value\<close>)

lemma shadeNode_rule:
  assumes P: "P g nx" and d: "sameDims g0 g"
    and adm: "\<And>g nx d v. P g nx \<Longrightarrow> sameDims g0 g \<Longrightarrow> d \<in> set deltas \<Longrightarrow>
        inGrid g (contour_x node + fst d) (contour_y node + snd d) \<Longrightarrow>
        gcv (get g (contour_x node + fst d) (contour_y node + snd d))
          (seedDistanceSq (contour_x node + fst d) (contour_y node + snd d)
             (contour_originX node) (contour_originY node)) = Some v \<Longrightarrow>
        P (set_value g (contour_x node + fst d) (contour_y node + snd d) v)
          (\<lparr>contour_x = contour_x node + fst d, contour_y = contour_y node + snd d,
            contour_originX = contour_originX node, contour_originY = contour_originY node,
            contour_value = v\<rparr> # nx)"
  shows "case shadeNode gcv node (g, nx) of (g', nx') \<Rightarrow> P g' nx' \<and> sameDims g0 g'"
proof -
  have "case fold (\<lambda>delta.
                let neighborX = contour_x node + fst delta;
                    neighborY = contour_y node + snd delta
                in checkAnAddContourNode gcv neighborX neighborY
                     (contour_originX node) (contour_originY node)) ds (g, nx) of
          (g', nx') \<Rightarrow> P g' nx' \<and> sameDims g0 g'"
    if "set ds \<subseteq> set deltas" for ds
    using that P d
  proof (induction ds arbitrary: g nx)
    case Nil
    then show ?case by simp
  next
    case (Cons a ds)
    let ?x = "contour_x node + fst a" and ?y = "contour_y node + snd a"
    have a: "a \<in> set deltas" using Cons.prems(1) by simp
    obtain g1 nx1 where s1: "checkAnAddContourNode gcv ?x ?y
        (contour_originX node) (contour_originY node) (g, nx) = (g1, nx1)"
      by (cases "checkAnAddContourNode gcv ?x ?y
        (contour_originX node) (contour_originY node) (g, nx)") auto
    have p1: "P g1 nx1 \<and> sameDims g0 g1"
    proof (cases rule: checkAnAddContourNode_cases
        [of gcv ?x ?y "contour_originX node" "contour_originY node" g nx])
      case same
      with s1 Cons.prems show ?thesis by simp
    next
      case (admit v)
      with s1 adm [OF Cons.prems(2,3) a admit(1,2)] Cons.prems(3) show ?thesis
        by (auto intro: sameDims_set_value)
    qed
    have "set ds \<subseteq> set deltas" using Cons.prems(1) by simp
    from Cons.IH [OF this] p1 show ?case
      by (simp add: s1 Let_def)
  qed
  from this [of deltas] P d show ?thesis
    by (simp add: shadeNode_def)
qed

lemma shadeLayer_rule:
  assumes P: "P g nx" and d: "sameDims g0 g"
    and adm: "\<And>g nx node d v. P g nx \<Longrightarrow> sameDims g0 g \<Longrightarrow> node \<in> set cur \<Longrightarrow>
        d \<in> set deltas \<Longrightarrow>
        inGrid g (contour_x node + fst d) (contour_y node + snd d) \<Longrightarrow>
        gcv (get g (contour_x node + fst d) (contour_y node + snd d))
          (seedDistanceSq (contour_x node + fst d) (contour_y node + snd d)
             (contour_originX node) (contour_originY node)) = Some v \<Longrightarrow>
        P (set_value g (contour_x node + fst d) (contour_y node + snd d) v)
          (\<lparr>contour_x = contour_x node + fst d, contour_y = contour_y node + snd d,
            contour_originX = contour_originX node, contour_originY = contour_originY node,
            contour_value = v\<rparr> # nx)"
  shows "case shadeLayer gcv cur (g, nx) of (g', nx') \<Rightarrow> P g' nx' \<and> sameDims g0 g'"
  using assms unfolding shadeLayer_def
proof (induction cur arbitrary: g nx)
  case Nil
  then show ?case by simp
next
  case (Cons node cur)
  have one: "case shadeNode gcv node (g, nx) of (g', nx') \<Rightarrow> P g' nx' \<and> sameDims g0 g'"
  proof (rule shadeNode_rule [where P = P and ?g0.0 = g0])
    show "P g nx" "sameDims g0 g" by (rule Cons.prems)+
  qed (rule Cons.prems(3), simp_all)
  obtain g1 nx1 where s1: "shadeNode gcv node (g, nx) = (g1, nx1)"
    by (cases "shadeNode gcv node (g, nx)") auto
  with one have p1: "P g1 nx1" "sameDims g0 g1" by auto
  have "case fold (shadeNode gcv) cur (g1, nx1) of (g', nx') \<Rightarrow> P g' nx' \<and> sameDims g0 g'"
    by (rule Cons.IH [OF p1]) (rule Cons.prems(3), simp_all)
  then show ?case by (simp add: s1)
qed

subsection \<open>Termination of the two loops\<close>

text \<open>
  The flood loop ends when the filling value cannot be flooded again and the contour law
  never makes a cell floodable: each step removes a floodable cell, or uncovers a floodable
  top of the stack, or shortens the stack.
\<close>

lemma floodable_finite: "finite (floodable canFlood g)"
  by (rule finite_subset [OF _ cells_finite [of g]]) (auto simp: floodable_def)

lemma floodable_set_value_blocked:
  assumes w: "wf_grid g" and "inGrid g x y" "\<not> canFlood v"
  shows "floodable canFlood (set_value g x y v) \<subseteq> floodable canFlood g - {(x, y)}"
proof -
  have "inGrid (set_value g x y v) a b = inGrid g a b" for a b
    by (simp add: inGrid_def)
  then show ?thesis
    using assms(3)
    by (auto simp: floodable_def get_set_value_inGrid [OF w assms(2)] split: if_splits)
qed

lemma floodStep_measure:
  assumes Q1: "\<not> canFlood fv"
    and Q2: "\<forall>f d v. \<not> canFlood f \<longrightarrow> gcv f d = Some v \<longrightarrow> \<not> canFlood v"
    and d: "wf_grid g" and n: "inGrid g (node_x n) (node_y n)"
  shows "case floodStep canFlood fv gcv n (g, rest, nxt) of
           (g', st', nx') \<Rightarrow>
             (floodable canFlood g' \<subseteq> floodable canFlood g - {(node_x n, node_y n)} \<and>
              (\<exists>pushed. st' = pushed @ rest \<and>
                 (\<forall>m \<in> set pushed. inGrid g (node_x m) (node_y m)) \<and>
                 (pushed \<noteq> [] \<longrightarrow>
                    canFlood (get g' (node_x (hd pushed)) (node_y (hd pushed)))))) \<and>
             sameDims g g'"
proof (rule floodStep_rule, goal_cases)
  case 1
  show ?case using d by (rule sameDims_refl)
next
  case 2
  have "floodable canFlood (set_value g (node_x n) (node_y n) fv)
      \<subseteq> floodable canFlood g - {(node_x n, node_y n)}"
    using d n Q1 by (rule floodable_set_value_blocked)
  then show ?case by simp
next
  case (3 g' st nx dl)
  then obtain pushed where p: "st = pushed @ rest"
    "\<forall>m \<in> set pushed. inGrid g (node_x m) (node_y m)"
    by blast
  let ?m = "\<lparr>node_x = node_x n + fst dl, node_y = node_y n + snd dl\<rparr>"
  have "?m # st = (?m # pushed) @ rest"
    "\<forall>m \<in> set (?m # pushed). inGrid g (node_x m) (node_y m)"
    "canFlood (get g' (node_x (hd (?m # pushed))) (node_y (hd (?m # pushed))))"
    using p 3 by (simp_all add: sameDims_inGrid)
  with 3(1) show ?case by blast
next
  case (4 g' st nx dl v)
  let ?x = "node_x n + fst dl" and ?y = "node_y n + snd dl"
  have w: "wf_grid g'" using 4(2) by (simp add: sameDims_def)
  have nb: "\<not> canFlood v" using Q2 4(5,6) by blast
  have sub: "floodable canFlood (set_value g' ?x ?y v) \<subseteq> floodable canFlood g'"
    using floodable_set_value_blocked [where canFlood = canFlood and v = v, OF w 4(4) nb]
    by blast
  from 4(1) obtain pushed where p: "st = pushed @ rest"
    "\<forall>m \<in> set pushed. inGrid g (node_x m) (node_y m)"
    "pushed \<noteq> [] \<longrightarrow> canFlood (get g' (node_x (hd pushed)) (node_y (hd pushed)))"
    by blast
  have "canFlood (get (set_value g' ?x ?y v) (node_x (hd pushed)) (node_y (hd pushed)))"
    if ne: "pushed \<noteq> []"
  proof -
    from ne p(2) have ig: "inGrid g' (node_x (hd pushed)) (node_y (hd pushed))"
      using 4(2) by (simp add: sameDims_inGrid)
    from ne p(3) 4(5) have "\<not> (node_x (hd pushed) = ?x \<and> node_y (hd pushed) = ?y)"
      by auto
    then have "get (set_value g' ?x ?y v) (node_x (hd pushed)) (node_y (hd pushed))
        = get g' (node_x (hd pushed)) (node_y (hd pushed))"
      using get_set_value_inGrid [OF w 4(4) ig, of v] by auto
    then show ?thesis
      using ne p(3) by simp
  qed
  with p(1,2) sub 4(1) show ?case by blast
qed

lemma floodLoop_total:
  assumes Q1: "\<not> canFlood fv"
    and Q2: "\<forall>f d v. \<not> canFlood f \<longrightarrow> gcv f d = Some v \<longrightarrow> \<not> canFlood v"
    and inv0: "Inv g0 stack0 next0"
    and basic: "\<And>g stack nxt. Inv g stack nxt \<Longrightarrow>
        wf_grid g \<and> (\<forall>n \<in> set stack. inGrid g (node_x n) (node_y n))"
    and step: "\<And>g n rest nxt. Inv g (n # rest) nxt \<Longrightarrow>
        (case floodStep canFlood fv gcv n (g, rest, nxt) of (g', st', nx') \<Rightarrow> Inv g' st' nx')"
  shows "\<exists>g' nx'. floodLoop canFlood fv gcv g0 stack0 next0 = Some (g', nx') \<and> Inv g' [] nx'"
proof -
  define R where "R = inv_image (less_than <*lex*> less_than <*lex*> less_than)
    (\<lambda>s. case s of (g, stack, nxt :: ContourNode list) \<Rightarrow>
       (card (floodable canFlood g), topBlocked canFlood g stack, length stack))"
  have wfR: "wf R"
    unfolding R_def by (intro wf_inv_image wf_lex_prod wf_less_than)
  have "Inv (fst s) (fst (snd s)) (snd (snd s)) \<longrightarrow>
     (\<exists>g' nx'. floodLoop canFlood fv gcv (fst s) (fst (snd s)) (snd (snd s)) = Some (g', nx') \<and>
        Inv g' [] nx')" for s
    using wfR
  proof (induction s rule: wf_induct_rule)
    case (less s)
    obtain g stack nxt where s: "s = (g, stack, nxt)"
      by (cases s) auto
    show ?case
    proof
      assume "Inv (fst s) (fst (snd s)) (snd (snd s))"
      then have inv: "Inv g stack nxt" by (simp add: s)
      show "\<exists>g' nx'. floodLoop canFlood fv gcv (fst s) (fst (snd s)) (snd (snd s)) = Some (g', nx') \<and>
        Inv g' [] nx'"
      proof (cases stack)
        case Nil
        with inv show ?thesis
          by (simp add: s floodLoop.simps)
      next
        case (Cons n rest)
        obtain g1 st1 nx1 where f: "floodStep canFlood fv gcv n (g, rest, nxt) = (g1, st1, nx1)"
          by (cases "floodStep canFlood fv gcv n (g, rest, nxt)") auto
        from step [of g n rest nxt] inv Cons f have inv1: "Inv g1 st1 nx1"
          by simp
        from basic [OF inv] Cons have w: "wf_grid g" and n: "inGrid g (node_x n) (node_y n)"
          by simp_all
        from floodStep_measure [where canFlood = canFlood and fv = fv and gcv = gcv
            and rest = rest and nxt = nxt, OF Q1 Q2 w n] f
        have "floodable canFlood g1 \<subseteq> floodable canFlood g - {(node_x n, node_y n)} \<and>
          (\<exists>pushed. st1 = pushed @ rest \<and>
             (\<forall>m \<in> set pushed. inGrid g (node_x m) (node_y m)) \<and>
             (pushed \<noteq> [] \<longrightarrow>
                canFlood (get g1 (node_x (hd pushed)) (node_y (hd pushed)))))"
          by simp
        then obtain pushed where
          m: "floodable canFlood g1 \<subseteq> floodable canFlood g - {(node_x n, node_y n)}"
          "st1 = pushed @ rest"
          "pushed \<noteq> [] \<longrightarrow> canFlood (get g1 (node_x (hd pushed)) (node_y (hd pushed)))"
          by blast
        have le: "card (floodable canFlood g1) \<le> card (floodable canFlood g)"
          using m(1) by (intro card_mono floodable_finite) blast
        have dec: "((g1, st1, nx1), (g, stack, nxt)) \<in> R"
        proof (cases "canFlood (get g (node_x n) (node_y n))")
          case True
          with n have "(node_x n, node_y n) \<in> floodable canFlood g"
            by (simp add: floodable_def)
          with m(1) have "floodable canFlood g1 \<subset> floodable canFlood g"
            by blast
          then have "card (floodable canFlood g1) < card (floodable canFlood g)"
            by (intro psubset_card_mono floodable_finite)
          then show ?thesis
            by (simp add: R_def)
        next
          case False
          then have tb: "topBlocked canFlood g stack = 1"
            by (simp add: topBlocked_def Cons)
          show ?thesis
          proof (cases "pushed = []")
            case True
            then have "st1 = rest" using m(2) by simp
            moreover have "topBlocked canFlood g1 rest \<le> 1"
              by (simp add: topBlocked_def split: list.splits)
            ultimately show ?thesis
              using le tb by (auto simp: R_def Cons)
          next
            case ne: False
            then have "topBlocked canFlood g1 st1 = 0"
              using m(2,3) by (cases pushed) (simp_all add: topBlocked_def)
            then show ?thesis
              using le tb by (auto simp: R_def)
          qed
        qed
        from less.IH [of "(g1, st1, nx1)"] dec inv1 s
        obtain g' nx' where "floodLoop canFlood fv gcv g1 st1 nx1 = Some (g', nx')" "Inv g' [] nx'"
          by auto
        moreover have "floodLoop canFlood fv gcv g stack nxt = floodLoop canFlood fv gcv g1 st1 nx1"
          by (subst floodLoop.simps) (simp add: Cons f)
        ultimately show ?thesis
          by (simp add: s)
      qed
    qed
  qed
  from this [of "(g0, stack0, next0)"] inv0 show ?thesis
    by simp
qed

text \<open>
  The shading ends when an admitted value is not admitted again at the same distance and
  an admission enables no new one: each admission removes a pair of a cell and a seed from
  the finitely many pending ones.
\<close>

lemma pending_finite: "finite seeds \<Longrightarrow> finite (pending gcv seeds g)"
  by (rule finite_subset [of _ "{(x, y). inGrid g x y} \<times> seeds"])
     (auto simp: pending_def cells_finite)

lemma admission_decreases:
  assumes P1: "\<forall>f d v. gcv f d = Some v \<longrightarrow> gcv v d = None"
    and P2: "\<forall>f d v d'. gcv f d = Some v \<longrightarrow> gcv v d' \<noteq> None \<longrightarrow> gcv f d' \<noteq> None"
    and w: "wf_grid g" and c: "inGrid g x y" and s: "(ox, oy) \<in> seeds" "finite seeds"
    and a: "gcv (get g x y) (seedDistanceSq x y ox oy) = Some v"
  shows "card (pending gcv seeds (set_value g x y v)) < card (pending gcv seeds g)"
proof -
  let ?g' = "set_value g x y v"
  have ig: "inGrid ?g' a b = inGrid g a b" for a b
    by (simp add: inGrid_def)
  have gv: "get ?g' a b = (if a = x \<and> b = y then v else get g a b)" if "inGrid g a b" for a b
    using get_set_value_inGrid [OF w c that] .
  have sub: "pending gcv seeds ?g' \<subseteq> pending gcv seeds g"
  proof
    fix p assume p: "p \<in> pending gcv seeds ?g'"
    obtain a b oa ob where pe: "p = ((a, b), (oa, ob))"
      by (cases p) auto
    from p pe have h: "inGrid g a b" "(oa, ob) \<in> seeds"
      "gcv (get ?g' a b) (seedDistanceSq a b oa ob) \<noteq> None"
      by (simp_all add: pending_def ig)
    have "gcv (get g a b) (seedDistanceSq a b oa ob) \<noteq> None"
    proof (cases "a = x \<and> b = y")
      case True
      with h(3) gv [OF h(1)] have "gcv v (seedDistanceSq x y oa ob) \<noteq> None" by simp
      with P2 a have "gcv (get g x y) (seedDistanceSq x y oa ob) \<noteq> None" by blast
      with True show ?thesis by simp
    next
      case False
      with h(3) gv [OF h(1)] show ?thesis by auto
    qed
    with h pe show "p \<in> pending gcv seeds g"
      by (simp add: pending_def)
  qed
  have "((x, y), (ox, oy)) \<in> pending gcv seeds g"
    using c s a by (simp add: pending_def)
  moreover have "((x, y), (ox, oy)) \<notin> pending gcv seeds ?g'"
    using P1 a gv [OF c] by (simp add: pending_def)
  ultimately have "pending gcv seeds ?g' \<subset> pending gcv seeds g"
    using sub by blast
  then show ?thesis
    by (intro psubset_card_mono pending_finite s)
qed

lemma shadeLayer_measure:
  assumes P1: "\<forall>f d v. gcv f d = Some v \<longrightarrow> gcv v d = None"
    and P2: "\<forall>f d v d'. gcv f d = Some v \<longrightarrow> gcv v d' \<noteq> None \<longrightarrow> gcv f d' \<noteq> None"
    and w: "wf_grid g" and s: "finite seeds" "origins cur \<subseteq> seeds"
  shows "case shadeLayer gcv cur (g, []) of (g', nx') \<Rightarrow>
           (card (pending gcv seeds g') + length nx' \<le> card (pending gcv seeds g) \<and>
            origins nx' \<subseteq> seeds) \<and> sameDims g g'"
proof -
  have "case shadeLayer gcv cur (g, []) of (g', nx') \<Rightarrow>
           (card (pending gcv seeds g') + length nx' \<le> card (pending gcv seeds g) + length ([] :: ContourNode list) \<and>
            origins nx' \<subseteq> seeds) \<and> sameDims g g'"
  proof (rule shadeLayer_rule, goal_cases)
    case 1
    show ?case by (simp add: origins_def)
  next
    case 2
    show ?case using w by (rule sameDims_refl)
  next
    case (3 g' nx node d v)
    have w': "wf_grid g'" using 3(2) by (simp add: sameDims_def)
    have o: "(contour_originX node, contour_originY node) \<in> seeds"
      using 3(3) s(2) by (auto simp: origins_def)
    from admission_decreases [OF P1 P2 w' 3(5) o s(1) 3(6)] 3(1) o
    show ?case by (simp add: origins_def)
  qed
  then show ?thesis by simp
qed

lemma shadeLoop_total:
  assumes P1: "\<forall>f d v. gcv f d = Some v \<longrightarrow> gcv v d = None"
    and P2: "\<forall>f d v d'. gcv f d = Some v \<longrightarrow> gcv v d' \<noteq> None \<longrightarrow> gcv f d' \<noteq> None"
    and inv0: "Inv g0 cur0"
    and basic: "\<And>g cur. Inv g cur \<Longrightarrow> wf_grid g"
    and step: "\<And>g cur. Inv g cur \<Longrightarrow> cur \<noteq> [] \<Longrightarrow>
        (case shadeLayer gcv cur (g, []) of (g', nx') \<Rightarrow> Inv g' nx')"
  shows "\<exists>g'. shadeLoop gcv g0 cur0 = Some g' \<and> Inv g' []"
proof -
  define seeds where "seeds = origins cur0"
  have fin: "finite seeds"
    by (simp add: seeds_def origins_def)
  define m where "m = (\<lambda>s. case s of (g, cur :: ContourNode list) \<Rightarrow>
     card (pending gcv seeds g) + (if cur = [] then 0 else 1 :: nat))"
  have "Inv (fst s) (snd s) \<and> origins (snd s) \<subseteq> seeds \<longrightarrow>
     (\<exists>g'. shadeLoop gcv (fst s) (snd s) = Some g' \<and> Inv g' [])" for s
  proof (induction s rule: measure_induct_rule [of m])
    case (less s)
    obtain g cur where s: "s = (g, cur)" by (cases s) auto
    show ?case
    proof
      assume "Inv (fst s) (snd s) \<and> origins (snd s) \<subseteq> seeds"
      then have inv: "Inv g cur" and o: "origins cur \<subseteq> seeds"
        by (simp_all add: s)
      show "\<exists>g'. shadeLoop gcv (fst s) (snd s) = Some g' \<and> Inv g' []"
      proof (cases "cur = []")
        case True
        with inv show ?thesis by (simp add: s shadeLoop.simps)
      next
        case False
        obtain g1 nx1 where l: "shadeLayer gcv cur (g, []) = (g1, nx1)"
          by (cases "shadeLayer gcv cur (g, [])") auto
        from step [OF inv False] l have inv1: "Inv g1 nx1" by simp
        from shadeLayer_measure [OF P1 P2 basic [OF inv] fin o] l
        have d: "card (pending gcv seeds g1) + length nx1 \<le> card (pending gcv seeds g)"
          and o1: "origins nx1 \<subseteq> seeds"
          by simp_all
        have "(if nx1 = [] then 0 else 1 :: nat) \<le> length nx1"
          by (cases nx1) simp_all
        with d False have "m (g1, nx1) < m (g, cur)"
          by (simp add: m_def)
        with less.IH [of "(g1, nx1)"] inv1 o1 s
        obtain g' where "shadeLoop gcv g1 nx1 = Some g'" "Inv g' []"
          by auto
        moreover have "shadeLoop gcv g cur = shadeLoop gcv g1 nx1"
          by (subst shadeLoop.simps) (simp add: False l)
        ultimately show ?thesis by (simp add: s)
      qed
    qed
  qed
  from this [of "(g0, cur0)"] inv0 show ?thesis
    by (simp add: seeds_def)
qed

subsection \<open>The two contour laws\<close>

lemma seedDistanceSq_ge: "minDistanceSq \<le> seedDistanceSq x y ox oy"
  by (simp add: seedDistanceSq_def)

lemma minDistanceSq_pos: "0 < minDistanceSq"
  by (simp add: minDistanceSq_def)

lemma fill_value_le_filling:
  assumes "fillContourValue (t * t) c f (seedDistanceSq x y ox oy) = Some v"
  shows "f < v \<and> v \<le> max valueMax (t * t * 1024 * 1024)"
proof -
  let ?d = "seedDistanceSq x y ox oy"
  from assms have v: "v = t * t / ?d" "f < v"
    by (auto simp: fillContourValue_def Let_def split: if_splits)
  have d: "minDistanceSq \<le> ?d" "0 < ?d"
    using seedDistanceSq_ge [of x y ox oy] minDistanceSq_pos by linarith+
  have "t * t / ?d \<le> t * t / minDistanceSq"
    using d minDistanceSq_pos by (intro divide_left_mono) simp_all
  also have "\<dots> = t * t * 1024 * 1024"
    by (simp add: minDistanceSq_def)
  finally show ?thesis
    using v by simp
qed

lemma fill_Q2:
  "\<forall>f d v. \<not> f < valueMax \<longrightarrow> fillContourValue ts cs f d = Some v \<longrightarrow> \<not> v < valueMax"
  by (auto simp: fillContourValue_def Let_def split: if_splits)

lemma fill_P1: "\<forall>f d v. fillContourValue ts cs f d = Some v \<longrightarrow> fillContourValue ts cs v d = None"
  by (auto simp: fillContourValue_def Let_def split: if_splits)

lemma fill_P2:
  "\<forall>f d v d'. fillContourValue ts cs f d = Some v \<longrightarrow> fillContourValue ts cs v d' \<noteq> None \<longrightarrow>
     fillContourValue ts cs f d' \<noteq> None"
  by (auto simp: fillContourValue_def Let_def split: if_splits)

lemma unfill_Q2:
  "\<forall>f d v. \<not> f > valueMin \<longrightarrow> unfillContourValue ts cs f d = Some v \<longrightarrow> \<not> v > valueMin"
  by (auto simp: unfillContourValue_def Let_def split: if_splits)

lemma unfill_P1:
  "\<forall>f d v. unfillContourValue ts cs f d = Some v \<longrightarrow> unfillContourValue ts cs v d = None"
  by (auto simp: unfillContourValue_def Let_def split: if_splits)

lemma unfill_P2:
  "\<forall>f d v d'. unfillContourValue ts cs f d = Some v \<longrightarrow> unfillContourValue ts cs v d' \<noteq> None \<longrightarrow>
     unfillContourValue ts cs f d' \<noteq> None"
  by (auto simp: unfillContourValue_def Let_def split: if_splits)

subsection \<open>fillFrom and unfillFrom return\<close>

lemma fillInv_step:
  assumes inv: "fillInv g0 valueMax (max valueMax (t * t * 1024 * 1024)) g (n # rest) nxt"
  shows "case floodStep (\<lambda>fieldValue. fieldValue < valueMax) (max valueMax (t * t * 1024 * 1024))
                (fillContourValue (t * t) c) n (g, rest, nxt) of
           (g', st', nx') \<Rightarrow>
             fillInv g0 valueMax (max valueMax (t * t * 1024 * 1024)) g' st' nx' \<and> sameDims g0 g'"
proof (rule floodStep_rule, goal_cases)
  let ?F = "max valueMax (t * t * 1024 * 1024)"
  case 1
  show ?case using inv by (simp add: fillInv_def raised_def)
next
  let ?F = "max valueMax (t * t * 1024 * 1024)"
  case 2
  from inv have d: "sameDims g0 g" and w: "wf_grid g"
    and n: "inGrid g0 (node_x n) (node_y n)" "get g0 (node_x n) (node_y n) < valueMax"
    by (simp_all add: fillInv_def raised_def sameDims_def)
  have n': "inGrid g (node_x n) (node_y n)" using n(1) d by (simp add: sameDims_inGrid)
  have "get g (node_x n) (node_y n) \<le> ?F"
    using inv n by (fastforce simp: fillInv_def)
  moreover have "get (set_value g (node_x n) (node_y n) ?F) x y =
      (if x = node_x n \<and> y = node_y n then ?F else get g x y)" if "inGrid g0 x y" for x y
    using get_set_value_inGrid [OF w n', of x y ?F] that d by (simp add: sameDims_inGrid)
  ultimately show ?case
    using inv n
    by (auto simp: fillInv_def raised_def sameDims_set_value)
next
  case (3 g' st nx d)
  then have "get g0 (node_x n + fst d) (node_y n + snd d) < valueMax"
    "inGrid g0 (node_x n + fst d) (node_y n + snd d)"
    by (fastforce simp: fillInv_def raised_def sameDims_inGrid)+
  with 3(1) show ?case
    by (simp add: fillInv_def)
next
  let ?F = "max valueMax (t * t * 1024 * 1024)"
  case (4 g' st nx d v)
  let ?x = "node_x n + fst d" and ?y = "node_y n + snd d"
  have w: "wf_grid g'" using 4(2) by (simp add: sameDims_def)
  from fill_value_le_filling [OF 4(6), of valueMax]
  have v: "get g' ?x ?y < v" "v \<le> ?F" by simp_all
  have gv: "get (set_value g' ?x ?y v) a b = (if a = ?x \<and> b = ?y then v else get g' a b)"
    if "inGrid g0 a b" for a b
    using get_set_value_inGrid [OF w 4(4), of a b v] that 4(2) by (simp add: sameDims_inGrid)
  have "inGrid g0 ?x ?y" using 4(2,4) by (simp add: sameDims_inGrid)
  then have "get g0 ?x ?y \<le> get g' ?x ?y"
    using 4(1) by (simp add: fillInv_def raised_def)
  with v 4(1,2) show ?case
    by (auto simp: fillInv_def raised_def sameDims_set_value gv)
qed

lemma fill_flood_total:
  assumes w: "wf_grid g0"
  shows "\<exists>g1 nx. floodFrom g0 originX originY (\<lambda>fieldValue. fieldValue < valueMax)
             (max valueMax (t * t * 1024 * 1024)) (fillContourValue (t * t) c) = Some (g1, nx) \<and>
           raised g0 g1"
proof -
  let ?F = "max valueMax (t * t * 1024 * 1024)"
  let ?x = "\<lfloor>originX + 1 / 2\<rfloor>" and ?y = "\<lfloor>originY + 1 / 2\<rfloor>"
  have r0: "raised g0 g0"
    using w by (simp add: raised_def sameDims_refl)
  show ?thesis
  proof (cases "inGrid g0 ?x ?y")
    case False
    then show ?thesis
      using r0 by (simp add: floodFrom_def inGrid_isInside Let_def)
  next
    case True
    let ?st = "if get g0 ?x ?y < valueMax then [\<lparr>node_x = ?x, node_y = ?y\<rparr>] else []"
    have inv0: "fillInv g0 valueMax ?F g0 ?st []"
      using r0 True by (simp add: fillInv_def)
    have "\<exists>g' nx'. floodLoop (\<lambda>fieldValue. fieldValue < valueMax) ?F
        (fillContourValue (t * t) c) g0 ?st [] = Some (g', nx') \<and> fillInv g0 valueMax ?F g' [] nx'"
    proof (rule floodLoop_total [where Inv = "fillInv g0 valueMax ?F"], goal_cases)
      case 1
      show ?case by simp
    next
      case 2
      show ?case by (rule fill_Q2)
    next
      case 3
      show ?case by (rule inv0)
    next
      case (4 g stack nxt)
      then show ?case
        by (auto simp: fillInv_def raised_def sameDims_def inGrid_def)
    next
      case (5 g n rest nxt)
      from fillInv_step [OF this, where c = c] show ?case
        by (simp split: prod.splits)
    qed
    then show ?thesis
      using True by (auto simp: floodFrom_def inGrid_isInside Let_def fillInv_def)
  qed
qed

lemma fill_shade_total:
  assumes r: "raised g0 g1"
  shows "\<exists>g2. shadeContour (fillContourValue ts c) (g1, nx) = Some g2 \<and> raised g0 g2"
proof -
  have "\<exists>g2. shadeLoop (fillContourValue ts c) g1 nx = Some g2 \<and> raised g0 g2"
  proof (rule shadeLoop_total [where Inv = "\<lambda>g cur. raised g0 g"], goal_cases)
    case 1
    show ?case by (rule fill_P1)
  next
    case 2
    show ?case by (rule fill_P2)
  next
    case 3
    show ?case by (rule r)
  next
    case (4 g cur)
    then show ?case by (simp add: raised_def sameDims_def)
  next
    case (5 g cur)
    have "case shadeLayer (fillContourValue ts c) cur (g, []) of
        (g', nx') \<Rightarrow> raised g0 g' \<and> sameDims g0 g'"
    proof (rule shadeLayer_rule [where P = "\<lambda>g nx. raised g0 g"], goal_cases)
      case 1
      show ?case by (rule 5(1))
    next
      case 2
      show ?case using 5(1) by (simp add: raised_def)
    next
      case (3 g' nx node d v)
      let ?x = "contour_x node + fst d" and ?y = "contour_y node + snd d"
      have w: "wf_grid g'" using 3(2) by (simp add: sameDims_def)
      have v: "get g' ?x ?y < v"
        using 3(6) by (auto simp: fillContourValue_def Let_def split: if_splits)
      have gv: "get (set_value g' ?x ?y v) a b = (if a = ?x \<and> b = ?y then v else get g' a b)"
        if "inGrid g0 a b" for a b
        using get_set_value_inGrid [OF w 3(5), of a b v] that 3(2) by (simp add: sameDims_inGrid)
      have "inGrid g0 ?x ?y" using 3(2,5) by (simp add: sameDims_inGrid)
      then have "get g0 ?x ?y \<le> get g' ?x ?y"
        using 3(1) by (simp add: raised_def)
      with v 3(1,2) show ?case
        by (auto simp: raised_def sameDims_set_value gv)
    qed
    then show ?case by (auto split: prod.splits)
  qed
  then show ?thesis by (simp add: shadeContour_def)
qed

lemma fillFrom_total_raised:
  assumes "wf_grid g"
  shows "\<exists>g'. fillFrom g originX originY valueMax thickness cappingRadiusRatio = Some g' \<and>
           raised g g'"
proof -
  let ?c = "cappingRadiusRatio * thickness * (cappingRadiusRatio * thickness)"
  from fill_flood_total [OF assms, of originX originY valueMax thickness ?c]
  obtain g1 nx where f: "floodFrom g originX originY (\<lambda>fieldValue. fieldValue < valueMax)
             (max valueMax (thickness * thickness * 1024 * 1024))
             (fillContourValue (thickness * thickness) ?c) = Some (g1, nx)" "raised g g1"
    by blast
  from fill_shade_total [OF f(2), of "thickness * thickness" ?c nx]
  obtain g2 where "shadeContour (fillContourValue (thickness * thickness) ?c) (g1, nx) = Some g2"
    "raised g g2"
    by blast
  with f(1) show ?thesis
    by (simp add: fillFrom_def Let_def)
qed

lemma unfillFrom_total:
  assumes w: "wf_grid g0" and m: "0 \<le> valueMin"
  shows "\<exists>g'. unfillFrom g0 originX originY valueMin thickness cappingRadiusRatio = Some g' \<and>
           sameDims g0 g'"
proof -
  let ?c = "cappingRadiusRatio * thickness * (cappingRadiusRatio * thickness)"
  let ?gcv = "unfillContourValue (thickness * thickness) ?c"
  let ?cf = "\<lambda>fieldValue :: real. fieldValue > valueMin"
  let ?x = "\<lfloor>originX + 1 / 2\<rfloor>" and ?y = "\<lfloor>originY + 1 / 2\<rfloor>"
  define Inv where "Inv = (\<lambda>g (st :: Node list) (nx :: ContourNode list).
     sameDims g0 g \<and> (\<forall>n \<in> set st. inGrid g0 (node_x n) (node_y n)))"
  have loop: "\<exists>g' nx'. floodLoop ?cf 0 ?gcv g0 st [] = Some (g', nx') \<and> Inv g' [] nx'"
    if "\<forall>n \<in> set st. inGrid g0 (node_x n) (node_y n)" for st
  proof (rule floodLoop_total [where Inv = Inv], goal_cases)
    case 1
    show ?case using m by simp
  next
    case 2
    show ?case by (rule unfill_Q2)
  next
    case 3
    show ?case using that w by (simp add: Inv_def sameDims_refl)
  next
    case (4 g stack nxt)
    then show ?case by (auto simp: Inv_def sameDims_def inGrid_def)
  next
    case (5 g n rest nxt)
    have "case floodStep ?cf 0 ?gcv n (g, rest, nxt) of
        (g', st', nx') \<Rightarrow> Inv g' st' nx' \<and> sameDims g0 g'"
      by (rule floodStep_rule) (use 5 in \<open>auto simp: Inv_def sameDims_set_value sameDims_inGrid\<close>)
    then show ?case by (auto split: prod.splits)
  qed
  have flood: "\<exists>g1 nx. floodFrom g0 originX originY ?cf 0 ?gcv = Some (g1, nx) \<and> sameDims g0 g1"
  proof (cases "inGrid g0 ?x ?y")
    case False
    then show ?thesis
      using w by (simp add: floodFrom_def inGrid_isInside Let_def sameDims_refl)
  next
    case True
    then have "\<forall>n \<in> set (if ?cf (get g0 ?x ?y) then [\<lparr>node_x = ?x, node_y = ?y\<rparr>] else []).
        inGrid g0 (node_x n) (node_y n)"
      by simp
    from loop [OF this] True show ?thesis
      by (auto simp: floodFrom_def inGrid_isInside Let_def Inv_def)
  qed
  then obtain g1 nx where f: "floodFrom g0 originX originY ?cf 0 ?gcv = Some (g1, nx)"
    "sameDims g0 g1"
    by blast
  have "\<exists>g2. shadeLoop ?gcv g1 nx = Some g2 \<and> sameDims g0 g2"
  proof (rule shadeLoop_total [where Inv = "\<lambda>g cur. sameDims g0 g"], goal_cases)
    case 1
    show ?case by (rule unfill_P1)
  next
    case 2
    show ?case by (rule unfill_P2)
  next
    case 3
    show ?case by (rule f(2))
  next
    case (4 g cur)
    then show ?case by (simp add: sameDims_def)
  next
    case (5 g cur)
    have "case shadeLayer ?gcv cur (g, []) of (g', nx') \<Rightarrow> True \<and> sameDims g0 g'"
      by (rule shadeLayer_rule [where P = "\<lambda>g nx. True"]) (use 5 in simp_all)
    then show ?case by (auto split: prod.splits)
  qed
  with f(1) show ?thesis
    by (simp add: unfillFrom_def shadeContour_def Let_def)
qed

text \<open>
  C2 holds for \<open>fillFrom\<close> on every rectangular field (\<open>fillFrom_total_raised\<close>) and for
  \<open>unfillFrom\<close> when \<open>valueMin\<close> is not negative (\<open>unfillFrom_total\<close>). With a negative
  \<open>valueMin\<close> the filling value 0 of \<open>unfillFrom\<close> still exceeds \<open>valueMin\<close>, so a filled
  cell is flooded again from its neighbour: on the field \<open>[[0, 0]]\<close> the flood stack
  alternates between the two cells for ever.
\<close>

lemma unfill_cycle:
  assumes "floodLoop canFlood fillingValue gcv g floodStack nxt = Some r"
  shows "\<not> (canFlood = (\<lambda>fieldValue. fieldValue > - 1) \<and> fillingValue = 0 \<and>
            gcv = unfillContourValue (1 * 1) (1 * 1 * (1 * 1)) \<and> g = [[0, 0]] \<and> nxt = [] \<and>
            (floodStack = [\<lparr>node_x = 0, node_y = 0\<rparr>] \<or>
             floodStack = [\<lparr>node_x = 1, node_y = 0\<rparr>]))"
proof (rule floodLoop.raw_induct [where P = "\<lambda>canFlood fillingValue gcv g floodStack nxt r.
    \<not> (canFlood = (\<lambda>fieldValue. fieldValue > - 1) \<and> fillingValue = 0 \<and>
            gcv = unfillContourValue (1 * 1) (1 * 1 * (1 * 1)) \<and> g = [[0, 0]] \<and> nxt = [] \<and>
            (floodStack = [\<lparr>node_x = 0, node_y = 0\<rparr>] \<or>
             floodStack = [\<lparr>node_x = 1, node_y = 0\<rparr>]))", OF _ assms], goal_cases)
  case (1 loop canFlood fillingValue gcv g floodStack nxt r)
  show ?case
  proof
    assume c: "canFlood = (\<lambda>fieldValue. fieldValue > - 1) \<and> fillingValue = 0 \<and>
            gcv = unfillContourValue (1 * 1) (1 * 1 * (1 * 1)) \<and> g = [[0, 0]] \<and> nxt = [] \<and>
            (floodStack = [\<lparr>node_x = 0, node_y = 0\<rparr>] \<or>
             floodStack = [\<lparr>node_x = 1, node_y = 0\<rparr>])"
    then have "floodStack = [\<lparr>node_x = 0, node_y = 0\<rparr>] \<or>
             floodStack = [\<lparr>node_x = 1, node_y = 0\<rparr>]"
      by simp
    then show False
    proof
      assume s: "floodStack = [\<lparr>node_x = 0, node_y = 0\<rparr>]"
      have "floodStep canFlood fillingValue gcv \<lparr>node_x = 0, node_y = 0\<rparr> (g, [], nxt)
          = ([[0, 0]], [\<lparr>node_x = 1, node_y = 0\<rparr>], [])"
        using c
        by (simp add: floodStep_def floodNeighbor_def checkAnAddContourNode_def isInside_def
            dimX_def dimY_def get_def set_value_def deltas_def Let_def)
      with 1(2) s have "loop canFlood fillingValue gcv [[0, 0]] [\<lparr>node_x = 1, node_y = 0\<rparr>] []
          = Some r"
        by simp
      from 1(1) [OF this] c show False by simp
    next
      assume s: "floodStack = [\<lparr>node_x = 1, node_y = 0\<rparr>]"
      have "floodStep canFlood fillingValue gcv \<lparr>node_x = 1, node_y = 0\<rparr> (g, [], nxt)
          = ([[0, 0]], [\<lparr>node_x = 0, node_y = 0\<rparr>], [])"
        using c
        by (simp add: floodStep_def floodNeighbor_def checkAnAddContourNode_def isInside_def
            dimX_def dimY_def get_def set_value_def deltas_def Let_def)
      with 1(2) s have "loop canFlood fillingValue gcv [[0, 0]] [\<lparr>node_x = 0, node_y = 0\<rparr>] []
          = Some r"
        by simp
      from 1(1) [OF this] c show False by simp
    qed
  qed
qed

text \<open>
  C2, failing input. \<open>unfillFrom(0, 0, -1, 1, 1)\<close> on the 2 by 1 field of zeros does not
  return.
\<close>

theorem unfillFrom_negative_minimum_diverges:
  "unfillFrom [[0, 0]] 0 0 (- 1) 1 1 = None"
proof -
  have "floodLoop (\<lambda>fieldValue. fieldValue > - 1) 0 (unfillContourValue (1 * 1) (1 * 1 * (1 * 1)))
      [[0, 0]] [\<lparr>node_x = 0, node_y = 0\<rparr>] [] = None"
    using unfill_cycle [of "\<lambda>fieldValue. fieldValue > - 1" 0
        "unfillContourValue (1 * 1) (1 * 1 * (1 * 1))" "[[0, 0]]" "[\<lparr>node_x = 0, node_y = 0\<rparr>]" "[]"]
    by (cases "floodLoop (\<lambda>fieldValue. fieldValue > - 1) 0
      (unfillContourValue (1 * 1) (1 * 1 * (1 * 1))) [[0, 0]] [\<lparr>node_x = 0, node_y = 0\<rparr>] []") auto
  then show ?thesis
    by (simp add: unfillFrom_def floodFrom_def isInside_def dimX_def dimY_def get_def Let_def)
qed

text \<open>
  C10. On every rectangular field and for all arguments, \<open>fillFrom\<close> returns a field of
  the same dimensions in which every cell is greater than or equal to what it was.
\<close>

theorem fillFrom_monotone:
  assumes "wf_grid g"
  shows "\<exists>g'. fillFrom g originX originY valueMax thickness cappingRadiusRatio = Some g' \<and>
           dimX g' = dimX g \<and> dimY g' = dimY g \<and>
           (\<forall>x y. inGrid g x y \<longrightarrow> get g x y \<le> get g' x y)"
proof -
  from fillFrom_total_raised [OF assms, of originX originY valueMax thickness cappingRadiusRatio]
  obtain g' where "fillFrom g originX originY valueMax thickness cappingRadiusRatio = Some g'"
    "raised g g'"
    by blast
  then show ?thesis
    by (auto simp: raised_def sameDims_def)
qed

lemmas flood_eval = fillFrom_def floodFrom_def floodLoop.simps floodStep_def
  floodNeighbor_def checkAnAddContourNode_def shadeContour_def shadeLoop.simps shadeLayer_def
  shadeNode_def fillContourValue_def isInside_def dimX_def dimY_def
  get_def set_value_def deltas_def minDistanceSq_def Let_def

theorem fillFrom_monotone_witness:
  "wf_grid [[0, 1 / 2, 1 / 4]] \<and>
   fillFrom [[0, 1 / 2, 1 / 4]] 0 0 (1 / 4) 1 3 = Some [[1048576, 1, 1 / 4]] \<and>
   inGrid [[0, 1 / 2, 1 / 4]] 1 0 \<and>
   get [[0, 1 / 2, 1 / 4]] 1 0 \<le> get [[1048576, 1, 1 / 4]] 1 0"
proof -
  have w: "wf_grid [[0, 1 / 2, 1 / 4]]"
    by (simp add: wf_grid_def dimX_def)
  have e: "fillFrom [[0, 1 / 2, 1 / 4]] 0 0 (1 / 4) 1 3 = Some [[1048576, 1, 1 / 4]]"
    by (simp add: flood_eval)
  have i: "inGrid [[0, 1 / 2, 1 / 4]] 1 0"
    by (simp add: inGrid_def dimX_def dimY_def)
  from fillFrom_monotone [OF w, of 0 0 "1 / 4" 1 3] w e i show ?thesis
    by auto
qed

subsection \<open>The flood without shading\<close>

lemma reach_floodable: "reach g valueMax origin p \<Longrightarrow> inGrid g (fst p) (snd p) \<and> get g (fst p) (snd p) < valueMax"
  by (induction rule: reach.induct) simp_all

lemma reach_origin:
  "reach g valueMax origin p \<Longrightarrow>
     inGrid g (fst origin) (snd origin) \<and> get g (fst origin) (snd origin) < valueMax"
  by (induction rule: reach.induct) simp_all

lemma zero_thickness_admits_nothing:
  "\<forall>f x y ox oy. fillContourValue 0 0 f (seedDistanceSq x y ox oy) = None"
proof -
  have "0 < seedDistanceSq x y ox oy" for x y ox oy
    using seedDistanceSq_ge [of x y ox oy] minDistanceSq_pos by linarith
  then have "\<not> seedDistanceSq x y ox oy < 0" for x y ox oy
    by (simp add: not_less less_imp_le)
  then show ?thesis
    by (simp add: fillContourValue_def)
qed

lemma floodNeighbors_no_admit:
  assumes na: "\<forall>f x y ox oy. gcv f (seedDistanceSq x y ox oy) = None"
  shows "\<exists>pushed. fold (floodNeighbor canFlood gcv x y) ds (g, st, nx) = (g, pushed @ st, nx) \<and>
           nodePos ` set pushed =
             {(x + fst d, y + snd d) | d. d \<in> set ds \<and> inGrid g (x + fst d) (y + snd d) \<and>
                 canFlood (get g (x + fst d) (y + snd d))}"
proof (induction ds arbitrary: st)
  case Nil
  show ?case by simp
next
  case (Cons a ds)
  let ?m = "\<lparr>node_x = x + fst a, node_y = y + snd a\<rparr>"
  let ?c = "inGrid g (x + fst a) (y + snd a) \<and> canFlood (get g (x + fst a) (y + snd a))"
  have one: "floodNeighbor canFlood gcv x y a (g, st, nx) = (g, (if ?c then [?m] else []) @ st, nx)"
  proof (cases rule: checkAnAddContourNode_cases
      [of gcv "x + fst a" "y + snd a" "of_int x" "of_int y" g nx])
    case same
    then show ?thesis
      by (simp add: floodNeighbor_def inGrid_isInside Let_def)
  next
    case (admit v)
    with na show ?thesis by simp
  qed
  from Cons.IH [of "(if ?c then [?m] else []) @ st"]
  obtain pushed where p: "fold (floodNeighbor canFlood gcv x y) ds
      (g, (if ?c then [?m] else []) @ st, nx) = (g, pushed @ (if ?c then [?m] else []) @ st, nx)"
    "nodePos ` set pushed =
       {(x + fst d, y + snd d) | d. d \<in> set ds \<and> inGrid g (x + fst d) (y + snd d) \<and>
           canFlood (get g (x + fst d) (y + snd d))}"
    by blast
  let ?pushed = "pushed @ (if ?c then [?m] else [])"
  have "fold (floodNeighbor canFlood gcv x y) (a # ds) (g, st, nx) = (g, ?pushed @ st, nx)"
    using p(1) one by simp
  moreover have "nodePos ` set ?pushed =
       {(x + fst d, y + snd d) | d. d \<in> set (a # ds) \<and> inGrid g (x + fst d) (y + snd d) \<and>
           canFlood (get g (x + fst d) (y + snd d))}"
    using p(2) by (auto simp: nodePos_def image_Un)
  ultimately show ?case by blast
qed

lemma floodStep_no_admit:
  assumes na: "\<forall>f x y ox oy. gcv f (seedDistanceSq x y ox oy) = None"
  shows "\<exists>pushed. floodStep canFlood fv gcv n (g, rest, nx) =
             (set_value g (node_x n) (node_y n) fv, pushed @ rest, nx) \<and>
           nodePos ` set pushed =
             {(node_x n + fst d, node_y n + snd d) | d. d \<in> set deltas \<and>
                 inGrid g (node_x n + fst d) (node_y n + snd d) \<and>
                 canFlood (get (set_value g (node_x n) (node_y n) fv)
                   (node_x n + fst d) (node_y n + snd d))}"
  using floodNeighbors_no_admit [OF na, of canFlood "node_x n" "node_y n" deltas
      "set_value g (node_x n) (node_y n) fv" rest nx]
  by (simp add: floodStep_def Let_def inGrid_def)

lemma floodedInv_step:
  assumes na: "\<forall>f x y ox oy. gcv f (seedDistanceSq x y ox oy) = None"
    and inv: "floodedInv g0 origin g (n # rest) nxt"
  shows "case floodStep (\<lambda>fieldValue. fieldValue < 1) 1 gcv n (g, rest, nxt) of
           (g', st', nx') \<Rightarrow> floodedInv g0 origin g' st' nx'"
proof -
  let ?g1 = "set_value g (node_x n) (node_y n) 1"
  from floodStep_no_admit [OF na, of "\<lambda>fieldValue. fieldValue < 1" 1 n g rest nxt]
  obtain pushed where f: "floodStep (\<lambda>fieldValue. fieldValue < 1) 1 gcv n (g, rest, nxt) =
      (?g1, pushed @ rest, nxt)"
    and pu: "nodePos ` set pushed =
      {(node_x n + fst d, node_y n + snd d) | d. d \<in> set deltas \<and>
          inGrid g (node_x n + fst d) (node_y n + snd d) \<and>
          get ?g1 (node_x n + fst d) (node_y n + snd d) < 1}"
    by blast
  from inv have d: "sameDims g0 g" and w: "wf_grid g" and nx: "nxt = []"
    and vals: "\<And>x y. inGrid g0 x y \<Longrightarrow>
        get g x y = get g0 x y \<or> (reach g0 1 origin (x, y) \<and> get g x y = 1)"
    and rn: "reach g0 1 origin (node_x n, node_y n)"
    and rrest: "\<And>p. p \<in> nodePos ` set rest \<Longrightarrow> reach g0 1 origin p"
    and org: "reach g0 1 origin origin \<Longrightarrow>
        get g (fst origin) (snd origin) = 1 \<or> origin = (node_x n, node_y n) \<or>
        origin \<in> nodePos ` set rest"
    and nb: "\<And>x y d. reach g0 1 origin (x, y) \<Longrightarrow> get g x y = 1 \<Longrightarrow> d \<in> set deltas \<Longrightarrow>
        reach g0 1 origin (x + fst d, y + snd d) \<Longrightarrow>
        get g (x + fst d) (y + snd d) = 1 \<or> (x + fst d, y + snd d) = (node_x n, node_y n) \<or>
        (x + fst d, y + snd d) \<in> nodePos ` set rest"
    by (auto simp: floodedInv_def sameDims_def nodePos_def)
  have ig: "inGrid g x y = inGrid g0 x y" for x y
    using d by (simp add: sameDims_inGrid)
  from reach_floodable [OF rn] have n0: "inGrid g0 (node_x n) (node_y n)"
    "get g0 (node_x n) (node_y n) < 1"
    by simp_all
  have g1: "get ?g1 x y = (if x = node_x n \<and> y = node_y n then 1 else get g x y)"
    if "inGrid g0 x y" for x y
    using get_set_value_inGrid [OF w, of "node_x n" "node_y n" x y 1] n0(1) that by (simp add: ig)
  have a: "get ?g1 x y = get g0 x y \<or> (reach g0 1 origin (x, y) \<and> get ?g1 x y = 1)"
    if "inGrid g0 x y" for x y
    using vals [OF that] rn by (auto simp: g1 [OF that])
  have b: "reach g0 1 origin p" if "p \<in> nodePos ` set pushed" for p
  proof -
    from that pu obtain dl where dl: "dl \<in> set deltas"
      "p = (node_x n + fst dl, node_y n + snd dl)"
      "inGrid g (node_x n + fst dl) (node_y n + snd dl)"
      "get ?g1 (node_x n + fst dl) (node_y n + snd dl) < 1"
      by auto
    have i0: "inGrid g0 (node_x n + fst dl) (node_y n + snd dl)"
      using dl(3) by (simp add: ig)
    from a [OF i0] dl(4) have "get g0 (node_x n + fst dl) (node_y n + snd dl) < 1"
      by auto
    from reach.step [OF rn dl(1) i0 this] dl(2) show ?thesis by simp
  qed
  have keep: "get ?g1 x y = 1" if "inGrid g0 x y" "get g x y = 1" for x y
    using that by (simp add: g1)
  have c: "get ?g1 (fst origin) (snd origin) = 1 \<or> origin \<in> nodePos ` set (pushed @ rest)"
    if r: "reach g0 1 origin origin"
  proof -
    from reach_floodable [OF r] have io: "inGrid g0 (fst origin) (snd origin)" by simp
    from org [OF r] show ?thesis
    proof (elim disjE)
      assume "get g (fst origin) (snd origin) = 1"
      with keep [OF io] show ?thesis by simp
    next
      assume "origin = (node_x n, node_y n)"
      then show ?thesis using g1 [OF io] by auto
    next
      assume "origin \<in> nodePos ` set rest"
      then show ?thesis by auto
    qed
  qed
  have e: "get ?g1 (x + fst dl) (y + snd dl) = 1 \<or>
      (x + fst dl, y + snd dl) \<in> nodePos ` set (pushed @ rest)"
    if r: "reach g0 1 origin (x, y)" and v: "get ?g1 x y = 1" and dl: "dl \<in> set deltas"
      and r': "reach g0 1 origin (x + fst dl, y + snd dl)" for x y dl
  proof -
    from reach_floodable [OF r] have i: "inGrid g0 x y" by simp
    from reach_floodable [OF r'] have i': "inGrid g0 (x + fst dl) (y + snd dl)"
      "get g0 (x + fst dl) (y + snd dl) < 1"
      by simp_all
    show ?thesis
    proof (cases "x = node_x n \<and> y = node_y n")
      case True
      show ?thesis
      proof (cases "get ?g1 (x + fst dl) (y + snd dl) < 1")
        case lt: True
        with True dl i' have "(x + fst dl, y + snd dl) \<in> nodePos ` set pushed"
          unfolding pu by (auto simp: ig)
        then show ?thesis by auto
      next
        case False
        with a [OF i'(1)] i'(2) show ?thesis by auto
      qed
    next
      case False
      with v g1 [OF i] have "get g x y = 1" by auto
      from nb [OF r this dl r'] show ?thesis
      proof (elim disjE)
        assume "get g (x + fst dl) (y + snd dl) = 1"
        with keep [OF i'(1)] show ?thesis by simp
      next
        assume "(x + fst dl, y + snd dl) = (node_x n, node_y n)"
        then show ?thesis using g1 [OF i'(1)] by auto
      next
        assume "(x + fst dl, y + snd dl) \<in> nodePos ` set rest"
        then show ?thesis by auto
      qed
    qed
  qed
  have "floodedInv g0 origin ?g1 (pushed @ rest) nxt"
    unfolding floodedInv_def
  proof (intro conjI allI impI ballI)
    show "sameDims g0 ?g1" using d by (rule sameDims_set_value)
    show "nxt = []" by (rule nx)
  next
    fix x y assume "inGrid g0 x y"
    then show "get ?g1 x y = get g0 x y \<or> (reach g0 1 origin (x, y) \<and> get ?g1 x y = 1)"
      by (rule a)
  next
    fix p assume "p \<in> nodePos ` set (pushed @ rest)"
    then have "p \<in> nodePos ` set pushed \<or> p \<in> nodePos ` set rest"
      by auto
    then show "reach g0 1 origin p"
      using b rrest by blast
  next
    assume "reach g0 1 origin origin"
    then show "get ?g1 (fst origin) (snd origin) = 1 \<or> origin \<in> nodePos ` set (pushed @ rest)"
      by (rule c)
  next
    fix x y dl
    assume "reach g0 1 origin (x, y)" "get ?g1 x y = 1" "dl \<in> set deltas"
      "reach g0 1 origin (x + fst dl, y + snd dl)"
    then show "get ?g1 (x + fst dl) (y + snd dl) = 1 \<or>
      (x + fst dl, y + snd dl) \<in> nodePos ` set (pushed @ rest)"
      by (rule e)
  qed
  then show ?thesis by (simp add: f)
qed

lemma floodedInv_final:
  assumes inv: "floodedInv g0 origin g [] nxt" and c: "inGrid g0 x y"
  shows "get g x y = (if reach g0 1 origin (x, y) then 1 else get g0 x y)"
proof -
  have filled: "get g (fst p) (snd p) = 1" if "reach g0 1 origin p" for p
    using that
  proof (induction rule: reach.induct)
    case start
    from reach.start [OF start] inv show ?case
      by (simp add: floodedInv_def)
  next
    case (step x y d)
    from inv step(1,2,5) reach.step [OF step(1-4)] show ?case
      by (simp add: floodedInv_def)
  qed
  show ?thesis
  proof (cases "reach g0 1 origin (x, y)")
    case True
    from filled [OF this] True show ?thesis by simp
  next
    case False
    with inv c show ?thesis by (auto simp: floodedInv_def)
  qed
qed

lemma fillFrom_zero_thickness:
  assumes w: "wf_grid g"
  shows "\<exists>g'. fillFrom g originX originY 1 0 1 = Some g' \<and> sameDims g g' \<and>
           (\<forall>x y. inGrid g x y \<longrightarrow>
              get g' x y =
                (if reach g 1 (\<lfloor>originX + 1 / 2\<rfloor>, \<lfloor>originY + 1 / 2\<rfloor>) (x, y) then 1
                 else get g x y))"
proof -
  let ?x = "\<lfloor>originX + 1 / 2\<rfloor>" and ?y = "\<lfloor>originY + 1 / 2\<rfloor>"
  let ?gcv = "fillContourValue 0 0"
  let ?cf = "\<lambda>fieldValue :: real. fieldValue < 1"
  have ff: "fillFrom g originX originY 1 0 1 =
      (case floodFrom g originX originY ?cf 1 ?gcv of None \<Rightarrow> None
       | Some st \<Rightarrow> shadeContour ?gcv st)"
    by (simp add: fillFrom_def Let_def cong: option.case_cong)
  show ?thesis
  proof (cases "inGrid g ?x ?y")
    case False
    then have "\<not> reach g 1 (?x, ?y) p" for p
      using reach_origin [of g 1 "(?x, ?y)" p] by auto
    moreover from False have "fillFrom g originX originY 1 0 1 = Some g"
      by (simp add: ff floodFrom_def inGrid_isInside shadeContour_def shadeLoop.simps)
    ultimately show ?thesis
      using w by (simp add: sameDims_refl)
  next
    case True
    let ?st = "if get g ?x ?y < 1 then [\<lparr>node_x = ?x, node_y = ?y\<rparr>] else []"
    have inv0: "floodedInv g (?x, ?y) g ?st []"
      unfolding floodedInv_def
    proof (intro conjI allI impI ballI)
      show "sameDims g g" using w by (rule sameDims_refl)
    next
      fix p assume "p \<in> nodePos ` set ?st"
      then have "p = (?x, ?y)" "get g ?x ?y < 1"
        by (auto simp: nodePos_def split: if_splits)
      with True show "reach g 1 (?x, ?y) p"
        by (auto intro: reach.start)
    next
      assume "reach g 1 (?x, ?y) (?x, ?y)"
      from reach_floodable [OF this]
      show "get g (fst (?x, ?y)) (snd (?x, ?y)) = 1 \<or> (?x, ?y) \<in> nodePos ` set ?st"
        by (simp add: nodePos_def)
    next
      fix x y d
      assume "reach g 1 (?x, ?y) (x, y)" "get g x y = 1"
      with reach_floodable [of g 1 "(?x, ?y)" "(x, y)"]
      show "get g (x + fst d) (y + snd d) = 1 \<or> (x + fst d, y + snd d) \<in> nodePos ` set ?st"
        by simp
    qed simp_all
    have "\<exists>g' nx'. floodLoop ?cf 1 ?gcv g ?st [] = Some (g', nx') \<and>
        floodedInv g (?x, ?y) g' [] nx'"
    proof (rule floodLoop_total [where Inv = "floodedInv g (?x, ?y)"], goal_cases)
      case 1
      show ?case by simp
    next
      case 2
      show ?case by (rule fill_Q2)
    next
      case 3
      show ?case by (rule inv0)
    next
      case (4 g' stack nxt)
      then have d: "sameDims g g'"
        and r: "\<forall>p \<in> nodePos ` set stack. reach g 1 (?x, ?y) p"
        by (simp_all add: floodedInv_def)
      have "inGrid g' (node_x n) (node_y n)" if "n \<in> set stack" for n
      proof -
        from that r have "reach g 1 (?x, ?y) (nodePos n)" by blast
        from reach_floodable [OF this] d show ?thesis
          by (simp add: nodePos_def sameDims_inGrid)
      qed
      with d show ?case by (simp add: sameDims_def)
    next
      case (5 g' n rest nxt)
      then show ?case
        by (rule floodedInv_step [OF zero_thickness_admits_nothing])
    qed
    then obtain g' nx' where l: "floodLoop ?cf 1 ?gcv g ?st [] = Some (g', nx')"
      and inv: "floodedInv g (?x, ?y) g' [] nx'"
      by blast
    from inv have nx: "nx' = []" and d: "sameDims g g'"
      by (simp_all add: floodedInv_def)
    have "fillFrom g originX originY 1 0 1 = Some g'"
      using True l nx
      by (simp add: ff floodFrom_def inGrid_isInside Let_def shadeContour_def shadeLoop.simps)
    with d floodedInv_final [OF inv] show ?thesis
      by simp
  qed
qed

lemma fill_square_fixture: "fillFrom squareFixture 4 4 1 0 1 = Some squareFilled"
  by (simp add: flood_eval squareFixture_def squareFilled_def)

text \<open>
  C1. On every rectangular field, \<open>fillFrom(originX, originY, 1, 0, 1)\<close> returns, and in
  the field it leaves every cell reachable from the rounded origin cell through cells of
  value below 1 holds the filling value \<open>max 1 (0\<^sup>2 * 2\<^sup>2\<^sup>0) = 1\<close>, and every other cell its
  previous value. (When the origin cell is outside the field or not below 1, no cell is
  reachable and the field is unchanged.) On the field of the test, \<open>fillFrom(4, 4, 1, 0, 1)\<close>
  gives the field the test expects: the sixteen inner zeros become 1.
\<close>

theorem fillFrom_floods_reachable:
  assumes "wf_grid g"
  shows "(\<exists>g'. fillFrom g originX originY 1 0 1 = Some g' \<and>
            dimX g' = dimX g \<and> dimY g' = dimY g \<and>
            (\<forall>x y. inGrid g x y \<longrightarrow>
               get g' x y =
                 (if reach g 1 (\<lfloor>originX + 1 / 2\<rfloor>, \<lfloor>originY + 1 / 2\<rfloor>) (x, y)
                  then max 1 (0 * 0 * 1024 * 1024) else get g x y))) \<and>
         fillFrom squareFixture 4 4 1 0 1 = Some squareFilled"
proof -
  from fillFrom_zero_thickness [OF assms, of originX originY]
  obtain g' where "fillFrom g originX originY 1 0 1 = Some g'" "sameDims g g'"
    "\<forall>x y. inGrid g x y \<longrightarrow>
       get g' x y =
         (if reach g 1 (\<lfloor>originX + 1 / 2\<rfloor>, \<lfloor>originY + 1 / 2\<rfloor>) (x, y) then 1 else get g x y)"
    by blast
  then show ?thesis
    using fill_square_fixture by (auto simp: sameDims_def)
qed

theorem fillFrom_floods_reachable_witness:
  "wf_grid squareFixture \<and> reach squareFixture 1 (4, 4) (4, 4) \<and>
   fillFrom squareFixture 4 4 1 0 1 = Some squareFilled \<and>
   get squareFilled 4 4 = 1 \<and>
   \<not> reach squareFixture 1 (4, 4) (0, 0) \<and> get squareFilled 0 0 = get squareFixture 0 0"
proof -
  have w: "wf_grid squareFixture"
    by (simp add: wf_grid_def dimX_def squareFixture_def)
  have "inGrid squareFixture (fst (4, 4)) (snd (4, 4))"
    "get squareFixture (fst (4, 4)) (snd (4, 4)) < 1"
    by (simp_all add: inGrid_def dimX_def dimY_def get_def squareFixture_def)
  then have r: "reach squareFixture 1 (4, 4) (4, 4)"
    by (rule reach.start)
  have f: "\<lfloor>4 + 1 / 2 :: real\<rfloor> = 4"
    by simp
  from fillFrom_floods_reachable [OF w, of 4 4]
  have filled: "fillFrom squareFixture 4 4 1 0 1 = Some squareFilled"
    and cells: "\<forall>x y. inGrid squareFixture x y \<longrightarrow>
      get squareFilled x y =
        (if reach squareFixture 1 (4, 4) (x, y) then 1 else get squareFixture x y)"
    by (auto simp: f)
  have c: "inGrid squareFixture 0 0" "get squareFilled 0 0 = 0" "get squareFixture 0 0 = 0"
    "get squareFilled 4 4 = 1"
    by (simp_all add: inGrid_def dimX_def dimY_def get_def squareFixture_def squareFilled_def)
  from cells c(1,2) have "\<not> reach squareFixture 1 (4, 4) (0, 0)"
    by auto
  with w r filled c show ?thesis
    by simp
qed

subsection \<open>Stale nodes of the shading\<close>

text \<open>
  C3 as stated fails: a node whose cell holds exactly the recorded value (the state right
  after its admission) is expanded, not discarded. Here the node at \<open>(1, 0)\<close> with seed
  \<open>(2, 0)\<close> and recorded value 1 shades its neighbour \<open>(0, 0)\<close> to \<open>1/4\<close>.
\<close>

theorem shade_equal_value_counterexample:
  "get [[0, 1, 1048576]] 1 0 \<le> contour_value
      \<lparr>contour_x = 1, contour_y = 0, contour_originX = 2, contour_originY = 0, contour_value = 1\<rparr> \<and>
   shadeLayer (fillContourValue 1 100)
     [\<lparr>contour_x = 1, contour_y = 0, contour_originX = 2, contour_originY = 0, contour_value = 1\<rparr>]
     ([[0, 1, 1048576]], []) =
   ([[1 / 4, 1, 1048576]],
    [\<lparr>contour_x = 0, contour_y = 0, contour_originX = 2, contour_originY = 0,
      contour_value = 1 / 4\<rparr>])"
  by (simp add: shadeLayer_def shadeNode_def checkAnAddContourNode_def fillContourValue_def
      isInside_def dimX_def dimY_def get_def set_value_def deltas_def minDistanceSq_def Let_def)

text \<open>
  C3, amended. A node popped from the current layer is discarded without expansion exactly
  when the current value of its cell is greater than its recorded value; otherwise
  \<open>checkAnAddContourNode\<close> runs on its four neighbours, in the order of \<open>deltas\<close>, with
  the node's own seed coordinates.
\<close>

theorem shadeLayer_pop_stale_or_expand:
  "shadeLayer gcv (node # contourStack) (g, nxt) =
     shadeLayer gcv contourStack
       (if get g (contour_x node) (contour_y node) > contour_value node then (g, nxt)
        else
          checkAnAddContourNode gcv (contour_x node) (contour_y node + 1)
              (contour_originX node) (contour_originY node)
            (checkAnAddContourNode gcv (contour_x node) (contour_y node - 1)
                (contour_originX node) (contour_originY node)
              (checkAnAddContourNode gcv (contour_x node + 1) (contour_y node)
                  (contour_originX node) (contour_originY node)
                (checkAnAddContourNode gcv (contour_x node - 1) (contour_y node)
                    (contour_originX node) (contour_originY node) (g, nxt)))))"
  by (simp add: shadeLayer_def shadeNode_def deltas_def Let_def)

theorem shadeLayer_pop_stale_or_expand_witness:
  "get [[0, 1, 1048576]] 1 0 > 1 / 4 \<and>
   shadeLayer (fillContourValue 1 100)
     [\<lparr>contour_x = 1, contour_y = 0, contour_originX = 2, contour_originY = 0,
       contour_value = 1 / 4\<rparr>]
     ([[0, 1, 1048576]], []) = ([[0, 1, 1048576]], [])"
  using shadeLayer_pop_stale_or_expand [of "fillContourValue 1 100"
      "\<lparr>contour_x = 1, contour_y = 0, contour_originX = 2, contour_originY = 0,
        contour_value = 1 / 4\<rparr>" "[]" "[[0, 1, 1048576]]" "[]"]
  by (simp add: get_def shadeLayer_def)

end
